theory Spec2Isabelle
  imports Complex_Main "HOL-Library.AList" "HOL-Library.Multiset" "HOL-Library.Char_ord" "HOL-Library.List_Lexorder"
begin

section \<open>JavaScript numbers\<close>

text \<open>
  A JavaScript number is NaN, one of the two infinities, or a finite value. A finite
  value is an exact rational below the overflow threshold of binary64,
  \<open>2^1024 - 2^970\<close>: a literal or an arithmetic result of that magnitude or more is an
  infinity, as in the language (\<open>num_of_rat\<close>). The rounding of the mantissa, and the
  underflow that comes with it, are not modelled, and the two zeros are one. Every sum
  below is written as the same left fold of \<open>js_add\<close> that the source runs, so no
  statement depends on reordering a sum.
\<close>

datatype jsnum = NaN | PInf | NInf | Fin rat

definition overflow_threshold :: rat where
  "overflow_threshold =
     179769313486231580793728971405303415079934132710037826936173778980444968292764750946649017977587207096330286416692887910946555547851940402630657488671505820681908902000708383676273854845817711531764475730270069855571366959622842914819860834936475292719074168444365510704342711559699508093042880177904174497792"

definition num_of_rat :: "rat \<Rightarrow> jsnum" where
  "num_of_rat q =
     (if overflow_threshold \<le> q then PInf
      else if q \<le> - overflow_threshold then NInf
      else Fin q)"

text \<open>The number of a count \<open>n\<close>: what a counter holds after \<open>n\<close> increments by 1.\<close>

definition js_of_nat :: "nat \<Rightarrow> jsnum" where
  "js_of_nat n = num_of_rat (of_nat n)"

fun js_add :: "jsnum \<Rightarrow> jsnum \<Rightarrow> jsnum" where
  "js_add NaN b = NaN"
| "js_add a NaN = NaN"
| "js_add PInf NInf = NaN"
| "js_add NInf PInf = NaN"
| "js_add PInf b = PInf"
| "js_add NInf b = NInf"
| "js_add (Fin a) PInf = PInf"
| "js_add (Fin a) NInf = NInf"
| "js_add (Fin a) (Fin b) = num_of_rat (a + b)"

fun js_neg :: "jsnum \<Rightarrow> jsnum" where
  "js_neg NaN = NaN"
| "js_neg PInf = NInf"
| "js_neg NInf = PInf"
| "js_neg (Fin a) = Fin (- a)"

definition js_sub :: "jsnum \<Rightarrow> jsnum \<Rightarrow> jsnum" where
  "js_sub a b = js_add a (js_neg b)"

text \<open>The sign of a number that is not NaN: \<open>True\<close> for negative values.\<close>

fun js_negative :: "jsnum \<Rightarrow> bool" where
  "js_negative NInf = True"
| "js_negative (Fin a) = (a < 0)"
| "js_negative b = False"

fun js_div :: "jsnum \<Rightarrow> jsnum \<Rightarrow> jsnum" where
  "js_div NaN b = NaN"
| "js_div a NaN = NaN"
| "js_div (Fin a) (Fin b) =
     (if b = 0 then (if a = 0 then NaN else if a < 0 then NInf else PInf)
      else num_of_rat (a / b))"
| "js_div (Fin a) b = Fin 0"
| "js_div a (Fin b) = (if js_negative a = (b < 0) then PInf else NInf)"
| "js_div a b = NaN"

text \<open>The comparisons \<open><\<close> and \<open>>\<close> of the language: false whenever an operand is NaN.\<close>

fun js_lt :: "jsnum \<Rightarrow> jsnum \<Rightarrow> bool" where
  "js_lt NaN b = False"
| "js_lt a NaN = False"
| "js_lt PInf b = False"
| "js_lt a NInf = False"
| "js_lt NInf b = True"
| "js_lt (Fin a) PInf = True"
| "js_lt (Fin a) (Fin b) = (a < b)"

definition js_gt :: "jsnum \<Rightarrow> jsnum \<Rightarrow> bool" where
  "js_gt a b = js_lt b a"

text \<open>\<open>a >= b\<close>: again false whenever an operand is NaN.\<close>

definition js_ge :: "jsnum \<Rightarrow> jsnum \<Rightarrow> bool" where
  "js_ge a b = (js_lt b a \<or> (a = b \<and> a \<noteq> NaN))"

definition js_le :: "jsnum \<Rightarrow> jsnum \<Rightarrow> bool" where
  "js_le a b = js_ge b a"

text \<open>Truthiness of a number (NaN and 0 are falsy), and \<open>n || 0\<close>.\<close>

definition num_truthy :: "jsnum \<Rightarrow> bool" where
  "num_truthy n = (n \<noteq> NaN \<and> n \<noteq> Fin 0)"

definition or_zero :: "jsnum \<Rightarrow> jsnum" where
  "or_zero n = (if num_truthy n then n else Fin 0)"

definition num_isNaN :: "jsnum \<Rightarrow> bool" where
  "num_isNaN n = (n = NaN)"

definition num_isFinite :: "jsnum \<Rightarrow> bool" where
  "num_isFinite n = (case n of Fin a \<Rightarrow> True | _ \<Rightarrow> False)"

text \<open>\<open>Math.min(...xs)\<close> and \<open>Math.max(...xs)\<close>: NaN as soon as one argument is NaN.\<close>

definition js_min2 :: "jsnum \<Rightarrow> jsnum \<Rightarrow> jsnum" where
  "js_min2 a b = (if a = NaN \<or> b = NaN then NaN else if js_lt b a then b else a)"

definition js_max2 :: "jsnum \<Rightarrow> jsnum \<Rightarrow> jsnum" where
  "js_max2 a b = (if a = NaN \<or> b = NaN then NaN else if js_lt a b then b else a)"

definition Math_min :: "jsnum list \<Rightarrow> jsnum" where
  "Math_min xs = foldl js_min2 PInf xs"

definition Math_max :: "jsnum list \<Rightarrow> jsnum" where
  "Math_max xs = foldl js_max2 NInf xs"

section \<open>Strings to numbers\<close>

text \<open>
  A string is a list of 8-bit characters, each standing for the UTF-16 code unit of the
  same value. \<open>is_ws\<close> is the white space that \<open>trim\<close>, \<open>parseFloat\<close> and \<open>Number\<close>
  strip, as far as it lies below 256.
\<close>

definition is_ws :: "char \<Rightarrow> bool" where
  "is_ws c = ((of_char c :: nat) \<in> {9, 10, 11, 12, 13, 32, 160})"

definition trim :: "string \<Rightarrow> string" where
  "trim s = rev (dropWhile is_ws (rev (dropWhile is_ws s)))"

definition is_digit :: "char \<Rightarrow> bool" where
  "is_digit c = (48 \<le> (of_char c :: nat) \<and> (of_char c :: nat) \<le> 57)"

definition digits_val :: "string \<Rightarrow> int" where
  "digits_val ds = foldl (\<lambda>a c. 10 * a + (of_char c - 48)) 0 ds"

text \<open>
  \<open>split_sign\<close> reads an optional sign; \<open>exponent_part\<close> reads \<open>e\<close> or \<open>E\<close>, an optional
  sign and at least one digit, and gives the exponent and the rest, or nothing when the
  text does not start with a complete exponent.
\<close>

definition split_sign :: "string \<Rightarrow> bool \<times> string" where
  "split_sign s =
     (case s of
        c # r \<Rightarrow> (if c = CHR ''-'' then (True, r) else if c = CHR ''+'' then (False, r) else (False, s))
      | [] \<Rightarrow> (False, s))"

definition exponent_part :: "string \<Rightarrow> (int \<times> string) option" where
  "exponent_part s =
     (case s of
        c # r \<Rightarrow>
          (if c = CHR ''e'' \<or> c = CHR ''E'' then
             (let (neg, r1) = split_sign r; ds = takeWhile is_digit r1
              in if ds = [] then None
                 else Some (if neg then - digits_val ds else digits_val ds,
                            dropWhile is_digit r1))
           else None)
      | [] \<Rightarrow> None)"

definition scale10 :: "rat \<Rightarrow> int \<Rightarrow> rat" where
  "scale10 m e = (if e < 0 then m / 10 ^ nat (- e) else m * 10 ^ nat e)"

text \<open>
  \<open>str_decimal\<close> reads the longest prefix that is a \<open>StrDecimalLiteral\<close> of the language
  (an optional sign, then \<open>Infinity\<close>, or digits with an optional fraction and exponent,
  where \<open>5.\<close> and \<open>.5\<close> count and a lone \<open>.\<close> does not) and returns its value with the
  text left over; \<open>None\<close> when no prefix is one. A literal beyond the range of binary64,
  such as \<open>2e308\<close>, is an infinity.
\<close>

definition str_decimal :: "string \<Rightarrow> (jsnum \<times> string) option" where
  "str_decimal s =
     (let (neg, s1) = split_sign s in
      if take 8 s1 = ''Infinity'' then Some (if neg then NInf else PInf, drop 8 s1)
      else
        let ip = takeWhile is_digit s1;
            s2 = dropWhile is_digit s1;
            dot = (s2 \<noteq> [] \<and> hd s2 = CHR ''.'');
            fp = (if dot then takeWhile is_digit (tl s2) else []);
            s3 = (if dot then dropWhile is_digit (tl s2) else s2)
        in if ip = [] \<and> fp = [] then None
           else
             let m = of_int (digits_val (ip @ fp)) / 10 ^ length fp;
                 (e, s4) = (case exponent_part s3 of None \<Rightarrow> (0, s3) | Some p \<Rightarrow> p);
                 v = scale10 m e
             in Some (num_of_rat (if neg then - v else v), s4))"

definition parseFloat :: "string \<Rightarrow> jsnum" where
  "parseFloat s = (case str_decimal (dropWhile is_ws s) of None \<Rightarrow> NaN | Some (v, r) \<Rightarrow> v)"

text \<open>
  \<open>Number(s)\<close>: the whole trimmed text must be a numeric literal. The empty text is 0;
  \<open>0x\<close>, \<open>0o\<close> and \<open>0b\<close> introduce unsigned integers in base 16, 8 and 2.
\<close>

definition radix_digit :: "char \<Rightarrow> int option" where
  "radix_digit c =
     (let n = (of_char c :: int) in
      if 48 \<le> n \<and> n \<le> 57 then Some (n - 48)
      else if 97 \<le> n \<and> n \<le> 102 then Some (n - 87)
      else if 65 \<le> n \<and> n \<le> 70 then Some (n - 55)
      else None)"

definition radix_val :: "int \<Rightarrow> string \<Rightarrow> jsnum" where
  "radix_val b ds =
     (if ds \<noteq> [] \<and> list_all (\<lambda>c. case radix_digit c of None \<Rightarrow> False | Some d \<Rightarrow> d < b) ds
      then num_of_rat (of_int (foldl (\<lambda>a c. b * a + the (radix_digit c)) 0 ds))
      else NaN)"

definition Number :: "string \<Rightarrow> jsnum" where
  "Number s =
     (let t = trim s in
      if t = [] then Fin 0
      else if take 2 t = ''0x'' \<or> take 2 t = ''0X'' then radix_val 16 (drop 2 t)
      else if take 2 t = ''0o'' \<or> take 2 t = ''0O'' then radix_val 8 (drop 2 t)
      else if take 2 t = ''0b'' \<or> take 2 t = ''0B'' then radix_val 2 (drop 2 t)
      else (case str_decimal t of Some (v, []) \<Rightarrow> v | _ \<Rightarrow> NaN))"

section \<open>Values, objects and rows\<close>

text \<open>
  The values that the cells and the derived records hold: \<open>undefined\<close>, a string or a
  number. \<open>val_truthy\<close> is the truth value the language gives them, \<open>val_to_num\<close> the
  conversion that \<open>/\<close> and \<open>isNaN\<close> apply.
\<close>

datatype jsval = Undefined | Str string | Num jsnum

fun val_truthy :: "jsval \<Rightarrow> bool" where
  "val_truthy Undefined = False"
| "val_truthy (Str s) = (s \<noteq> [])"
| "val_truthy (Num n) = num_truthy n"

fun val_to_num :: "jsval \<Rightarrow> jsnum" where
  "val_to_num Undefined = NaN"
| "val_to_num (Str s) = Number s"
| "val_to_num (Num n) = n"

definition isNaN :: "jsval \<Rightarrow> bool" where
  "isNaN v = num_isNaN (val_to_num v)"

text \<open>
  The text of a number, as \<open>+\<close> appends it to a string. It is exact for NaN, the
  infinities and the integers below \<open>10^21\<close>; the fraction digits of any other value
  depend on its binary64 rounding and are left out. The transformer only ever appends
  the literal \<open>1\<close> to a string (a counter field that collides with the x field).
\<close>

fun nat_text :: "nat \<Rightarrow> string" where
  "nat_text n = (if n < 10 then [char_of (48 + n)] else nat_text (n div 10) @ [char_of (48 + n mod 10)])"

fun num_text :: "jsnum \<Rightarrow> string" where
  "num_text NaN = ''NaN''"
| "num_text PInf = ''Infinity''"
| "num_text NInf = ''-Infinity''"
| "num_text (Fin q) = (if q < 0 then ''-'' else []) @ nat_text (nat \<lfloor>\<bar>q\<bar>\<rfloor>)"

text \<open>\<open>v += n\<close> for a number \<open>n\<close>: addition, or concatenation when \<open>v\<close> is a string.\<close>

fun js_plus :: "jsval \<Rightarrow> jsnum \<Rightarrow> jsval" where
  "js_plus Undefined n = Num NaN"
| "js_plus (Str s) n = Str (s @ num_text n)"
| "js_plus (Num a) n = Num (js_add a n)"

text \<open>
  An object is the list of its own enumerable properties in the order in which
  \<open>Object.values\<close>, \<open>Object.entries\<close> and the spread enumerate them: the keys that are
  array indices (canonical decimal numerals below \<open>2^32 - 1\<close>) first, in ascending
  numeric order, then the other keys in the order of their creation.

  \<open>obj_define\<close> is the property definition of an object literal; \<open>obj_assign\<close> is the
  assignment \<open>o[k] = v\<close>, which for the key \<open>__proto__\<close> runs the setter inherited from
  \<open>Object.prototype\<close> and creates no own property. A read of a key that the object does
  not own gives \<open>undefined\<close>; the properties inherited from \<open>Object.prototype\<close> are
  written out where the source tests one for truth (\<open>proto_names\<close>).
\<close>

type_synonym 'v obj = "(string \<times> 'v) list"

definition is_index :: "string \<Rightarrow> bool" where
  "is_index k = (k \<noteq> [] \<and> list_all is_digit k \<and> (k = ''0'' \<or> hd k \<noteq> CHR ''0'')
     \<and> digits_val k < 4294967295)"

definition key_before :: "string \<Rightarrow> string \<Rightarrow> bool" where
  "key_before k k' = (is_index k \<and> (if is_index k' then digits_val k < digits_val k' else True))"

fun obj_insert_new :: "string \<Rightarrow> 'v \<Rightarrow> 'v obj \<Rightarrow> 'v obj" where
  "obj_insert_new k v [] = [(k, v)]"
| "obj_insert_new k v (p # ps) =
     (if key_before k (fst p) then (k, v) # p # ps else p # obj_insert_new k v ps)"

definition obj_define :: "string \<Rightarrow> 'v \<Rightarrow> 'v obj \<Rightarrow> 'v obj" where
  "obj_define k v ob = (if map_of ob k = None then obj_insert_new k v ob else AList.update k v ob)"

definition obj_assign :: "string \<Rightarrow> 'v \<Rightarrow> 'v obj \<Rightarrow> 'v obj" where
  "obj_assign k v ob = (if k = ''__proto__'' then ob else obj_define k v ob)"

definition obj_delete :: "string \<Rightarrow> 'v obj \<Rightarrow> 'v obj" where
  "obj_delete k ob = AList.delete k ob"

definition obj_read :: "jsval obj \<Rightarrow> string \<Rightarrow> jsval" where
  "obj_read ob k = (case map_of ob k of None \<Rightarrow> Undefined | Some v \<Rightarrow> v)"

definition Object_values :: "'v obj \<Rightarrow> 'v list" where
  "Object_values ob = map snd ob"

definition proto_names :: "string list" where
  "proto_names = [''__proto__'', ''constructor'', ''hasOwnProperty'', ''isPrototypeOf'',
     ''propertyIsEnumerable'', ''toLocaleString'', ''toString'', ''valueOf'',
     ''__defineGetter__'', ''__defineSetter__'', ''__lookupGetter__'', ''__lookupSetter__'']"

text \<open>
  A row is the object the CSV parser made of one record: column name to cell text. A
  record shorter than the header has no property for the missing columns, so a cell is
  optional. \<open>key_of\<close> is the property key a cell value is used as (and its text in a
  template literal), \<open>cell_val\<close> the value itself.
\<close>

type_synonym row = "string obj"

definition cell :: "row \<Rightarrow> string \<Rightarrow> string option" where
  "cell r c = map_of r c"

definition key_of :: "string option \<Rightarrow> string" where
  "key_of c = (case c of None \<Rightarrow> ''undefined'' | Some s \<Rightarrow> s)"

definition cell_val :: "string option \<Rightarrow> jsval" where
  "cell_val c = (case c of None \<Rightarrow> Undefined | Some s \<Rightarrow> Str s)"

text \<open>\<open>parseFloat(row[c]) || 0\<close>, the coercion every strategy applies.\<close>

definition coerce :: "row \<Rightarrow> string \<Rightarrow> jsnum" where
  "coerce r c = or_zero (parseFloat (key_of (cell r c)))"

definition spread :: "row \<Rightarrow> jsval obj" where
  "spread r = foldl (\<lambda>ob p. obj_define (fst p) (Str (snd p)) ob) [] r"

text \<open>\<open>new Set(xs)\<close> spread into an array: the distinct elements in first-seen order.\<close>

definition js_Set :: "'a list \<Rightarrow> 'a list" where
  "js_Set xs = rev (remdups (rev xs))"

text \<open>
  \<open>Array.prototype.sort()\<close> with no comparator, on strings and \<open>undefined\<close>: the strings
  in ascending order of their code units, \<open>undefined\<close> last.
\<close>

definition js_sort_default :: "string option list \<Rightarrow> string option list" where
  "js_sort_default vs = map Some (sort (List.map_filter id vs)) @ filter (\<lambda>v. v = None) vs"

text \<open>
  \<open>Array.prototype.sort(cmp)\<close>. The language fixes the result only for a consistent
  comparator, and then it is the stable sort; the model is the stable insertion sort. A
  comparator result of NaN counts as 0.
\<close>

fun js_insert :: "('a \<Rightarrow> 'a \<Rightarrow> jsnum) \<Rightarrow> 'a \<Rightarrow> 'a list \<Rightarrow> 'a list" where
  "js_insert cmp a [] = [a]"
| "js_insert cmp a (b # bs) = (if js_gt (cmp b a) (Fin 0) then a # b # bs else b # js_insert cmp a bs)"

definition js_sort_by :: "('a \<Rightarrow> 'a \<Rightarrow> jsnum) \<Rightarrow> 'a list \<Rightarrow> 'a list" where
  "js_sort_by cmp xs = foldl (\<lambda>acc a. js_insert cmp a acc) [] xs"

section \<open>Series transformer (src/app/page.tsx)\<close>

subsection \<open>prepareScatterData and the plain strategy\<close>

definition prepareScatterData :: "row list \<Rightarrow> string \<Rightarrow> string \<Rightarrow> jsval obj list" where
  "prepareScatterData data x y =
     filter (\<lambda>r. \<not> isNaN (obj_read r x) \<and> \<not> isNaN (obj_read r y))
       (map (\<lambda>r. obj_define y (Num (coerce r y)) (obj_define x (Num (coerce r x)) (spread r))) data)"

definition preparePlainData :: "row list \<Rightarrow> string \<Rightarrow> jsval obj list" where
  "preparePlainData data y = map (\<lambda>r. obj_define y (Num (coerce r y)) (spread r)) data"

subsection \<open>prepareGroupedData\<close>

text \<open>
  \<open>init_item\<close> is the record \<open>{ [x]: xVal }\<close> with every group seeded to 0;
  \<open>init_grouped\<close> is \<open>groupedData\<close> after the first \<open>forEach\<close>.
\<close>

definition init_item :: "string \<Rightarrow> string option list \<Rightarrow> string option \<Rightarrow> jsval obj" where
  "init_item x uniqueGroups xVal =
     foldl (\<lambda>item g. obj_assign (key_of g) (Num (Fin 0)) item)
       (obj_define x (cell_val xVal) []) uniqueGroups"

definition init_grouped :: "string \<Rightarrow> string option list \<Rightarrow> string option list \<Rightarrow> jsval obj obj" where
  "init_grouped x uniqueGroups uniqueX =
     foldl (\<lambda>gd xVal. obj_assign (key_of xVal) (init_item x uniqueGroups xVal) gd) [] uniqueX"

text \<open>The \<open>switch (transform)\<close> on one record, for one row's group key and y value.\<close>

definition accumulate :: "string \<Rightarrow> string \<Rightarrow> jsnum \<Rightarrow> jsval obj \<Rightarrow> jsval obj" where
  "accumulate transform groupKey yValue item =
     (if transform = ''sum'' then
        obj_assign groupKey (js_plus (obj_read item groupKey) yValue) item
      else if transform = ''average'' then
        (let cnt = groupKey @ ''_count'';
             item1 = (if \<not> val_truthy (obj_read item cnt)
                      then obj_assign groupKey (Num (Fin 0)) (obj_assign cnt (Num (Fin 0)) item)
                      else item);
             item2 = obj_assign groupKey (js_plus (obj_read item1 groupKey) yValue) item1
         in obj_assign cnt (js_plus (obj_read item2 cnt) (Fin 1)) item2)
      else if transform = ''count'' then
        obj_assign groupKey (js_plus (obj_read item groupKey) (Fin 1)) item
      else
        obj_assign groupKey (js_plus (obj_read item groupKey) yValue) item)"

text \<open>
  One turn of \<open>data.forEach\<close>. The test \<open>if (groupedData[xValue])\<close> holds for every own
  record; where \<open>groupedData\<close> owns no record for the key, whatever the source then
  updates is not a property of \<open>groupedData\<close>, which stays as it is.
\<close>

definition grouped_step :: "string \<Rightarrow> string \<Rightarrow> string \<Rightarrow> string \<Rightarrow> jsval obj obj \<Rightarrow> row \<Rightarrow> jsval obj obj" where
  "grouped_step x y groupBy transform gd r =
     (let xValue = key_of (cell r x);
          groupKey = key_of (cell r groupBy);
          yValue = coerce r y
      in case map_of gd xValue of
           None \<Rightarrow> gd
         | Some item \<Rightarrow> AList.update xValue (accumulate transform groupKey yValue item) gd)"

text \<open>The post-processing of one record for one group, when the transform is average.\<close>

definition average_group :: "jsval obj \<Rightarrow> string option \<Rightarrow> jsval obj" where
  "average_group item g =
     (let cnt = key_of g @ ''_count'';
          c = obj_read item cnt;
          count = (if val_truthy c then c else Num (Fin 1));
          item1 = obj_assign (key_of g)
                    (Num (js_div (val_to_num (obj_read item (key_of g))) (val_to_num count))) item
      in obj_delete cnt item1)"

definition average_item :: "string option list \<Rightarrow> jsval obj \<Rightarrow> jsval obj" where
  "average_item uniqueGroups item = foldl average_group item uniqueGroups"

text \<open>\<open>groupedData\<close> when the function returns, and the function itself.\<close>

definition groupedData :: "row list \<Rightarrow> string \<Rightarrow> string \<Rightarrow> string \<Rightarrow> string \<Rightarrow> jsval obj obj" where
  "groupedData data x y groupBy transform =
     (let uniqueX = js_sort_default (js_Set (map (\<lambda>r. cell r x) data));
          uniqueGroups = js_Set (map (\<lambda>r. cell r groupBy) data);
          gd0 = init_grouped x uniqueGroups uniqueX;
          gd1 = foldl (grouped_step x y groupBy transform) gd0 data
      in if transform = ''average''
         then map (\<lambda>p. (fst p, average_item uniqueGroups (snd p))) gd1
         else gd1)"

definition prepareGroupedData :: "row list \<Rightarrow> string \<Rightarrow> string \<Rightarrow> string \<Rightarrow> string \<Rightarrow> jsval obj list" where
  "prepareGroupedData data x y groupBy transform =
     Object_values (groupedData data x y groupBy transform)"

subsection \<open>preparePieData\<close>

text \<open>
  An accumulator \<open>{ value, count }\<close> is a pair. The test \<open>if (!aggregated[category])\<close>
  fails for an own accumulator and also for a category that names a property inherited
  from \<open>Object.prototype\<close>; in the second case no accumulator is created and the
  updates go to the inherited object, so \<open>aggregated\<close> stays as it is.
\<close>

definition pie_update :: "string \<Rightarrow> jsnum \<Rightarrow> jsnum \<times> jsnum \<Rightarrow> jsnum \<times> jsnum" where
  "pie_update transform v acc =
     (if transform = ''sum'' then (js_add (fst acc) v, snd acc)
      else if transform = ''average'' then (js_add (fst acc) v, js_add (snd acc) (Fin 1))
      else if transform = ''count'' then (js_add (fst acc) (Fin 1), snd acc)
      else (js_add (fst acc) v, snd acc))"

definition pie_step :: "string \<Rightarrow> string \<Rightarrow> string \<Rightarrow> (jsnum \<times> jsnum) obj \<Rightarrow> row \<Rightarrow> (jsnum \<times> jsnum) obj" where
  "pie_step x y transform aggregated r =
     (let category = key_of (cell r x);
          v = coerce r y;
          agg1 = (if map_of aggregated category = None \<and> category \<notin> set proto_names
                  then obj_assign category (Fin 0, Fin 0) aggregated
                  else aggregated)
      in case map_of agg1 category of
           None \<Rightarrow> agg1
         | Some acc \<Rightarrow> AList.update category (pie_update transform v acc) agg1)"

definition aggregated :: "row list \<Rightarrow> string \<Rightarrow> string \<Rightarrow> string \<Rightarrow> (jsnum \<times> jsnum) obj" where
  "aggregated data x y transform = foldl (pie_step x y transform) [] data"

text \<open>A record \<open>{ name, value }\<close> of the result is the pair of its name and its value.\<close>

type_synonym slice = "string \<times> jsnum"

definition pie_slice :: "string \<Rightarrow> string \<times> jsnum \<times> jsnum \<Rightarrow> slice" where
  "pie_slice transform e =
     (fst e, if transform = ''average'' then js_div (fst (snd e)) (snd (snd e)) else fst (snd e))"

definition preparePieData :: "row list \<Rightarrow> string \<Rightarrow> string \<Rightarrow> string \<Rightarrow> slice list" where
  "preparePieData data x y transform =
     js_sort_by (\<lambda>a b. js_sub (snd b) (snd a))
       (map (pie_slice transform) (aggregated data x y transform))"

section \<open>Column profiler (handleFileUpload in src/app/page.tsx)\<close>

text \<open>
  The three type names are an enumeration. \<open>validDate v\<close> stands for
  \<open>!isNaN(new Date(v).getTime())\<close>: which texts a \<open>Date\<close> accepts is left to the engine
  by the language, so the test is a parameter of the profiler.
\<close>

datatype coltype = Numeric | Date | Text

definition getValueType :: "(string \<Rightarrow> bool) \<Rightarrow> string \<Rightarrow> coltype" where
  "getValueType validDate v =
     (if \<not> num_isNaN (parseFloat v) \<and> num_isFinite (Number v) \<and> trim v \<noteq> [] then Numeric
      else if validDate v \<and> trim v \<noteq> [] then Date
      else Text)"

text \<open>The cells of a column that are neither missing nor empty.\<close>

definition column_values :: "row list \<Rightarrow> string \<Rightarrow> string list" where
  "column_values rows c = filter (\<lambda>s. s \<noteq> []) (List.map_filter (\<lambda>r. cell r c) rows)"

text \<open>
  \<open>typeCounts\<close> is the object the \<open>reduce\<close> builds: its keys are type names, none of
  them an array index, so its entries stand in the order of first occurrence.
\<close>

definition typeCounts :: "coltype list \<Rightarrow> (coltype \<times> nat) list" where
  "typeCounts types =
     foldl (\<lambda>acc t. AList.update t ((case map_of acc t of None \<Rightarrow> 0 | Some c \<Rightarrow> c) + 1) acc) [] types"

definition sortedTypes :: "coltype list \<Rightarrow> (coltype \<times> nat) list" where
  "sortedTypes types =
     js_sort_by (\<lambda>a b. js_sub (Fin (of_nat (snd b))) (Fin (of_nat (snd a)))) (typeCounts types)"

text \<open>
  The type of a column with the values \<open>vs\<close>. The source reads \<open>sortedTypes[0]\<close> only
  where \<open>vs\<close> is not empty, and then \<open>sortedTypes\<close> is not empty either
  (\<open>sortedTypes_not_empty\<close>).
\<close>

definition resolve_type :: "(string \<Rightarrow> bool) \<Rightarrow> string list \<Rightarrow> coltype" where
  "resolve_type validDate vs =
     (if vs = [] then Text
      else
        let types = map (getValueType validDate) vs;
            total = length types
        in case sortedTypes types of
             [] \<Rightarrow> Text
           | p # ps \<Rightarrow>
               (if js_gt (js_div (Fin (of_nat (snd p))) (Fin (of_nat total))) (Fin (1 / 2))
                then fst p else Text))"

definition numeric_values :: "(string \<Rightarrow> bool) \<Rightarrow> string list \<Rightarrow> jsnum list" where
  "numeric_values validDate vs = map parseFloat (filter (\<lambda>v. getValueType validDate v = Numeric) vs)"

record ColumnInfo =
  col_name :: string
  col_type :: coltype
  col_min :: "jsnum option"
  col_max :: "jsnum option"
  col_uniqueCount :: nat

definition columnInfo :: "(string \<Rightarrow> bool) \<Rightarrow> row list \<Rightarrow> string \<Rightarrow> ColumnInfo" where
  "columnInfo validDate rows c =
     (let vs = column_values rows c;
          ty = resolve_type validDate vs;
          nums = (if ty = Numeric then numeric_values validDate vs else [])
      in \<lparr> col_name = c, col_type = ty,
           col_min = (if nums = [] then None else Some (Math_min nums)),
           col_max = (if nums = [] then None else Some (Math_max nums)),
           col_uniqueCount = length (remdups vs) \<rparr>)"

text \<open>The upload handler: nothing is profiled for a file with no record.\<close>

definition handleFileUpload :: "(string \<Rightarrow> bool) \<Rightarrow> row list \<Rightarrow> ColumnInfo list option" where
  "handleFileUpload validDate rows =
     (if rows = [] then None else Some (map (columnInfo validDate rows) (map fst (hd rows))))"

section \<open>Chart specification validator (POST in src/app/api/generate/route.ts)\<close>

text \<open>
  The proposal is whatever \<open>JSON.parse\<close> made of the oracle's text: an object is the
  list of its own properties, and a number is a JavaScript number, so that a literal
  such as \<open>1e400\<close> is an infinity. A property read
  gives \<open>None\<close> for \<open>undefined\<close>. The operator \<open>in\<close> throws a \<open>TypeError\<close> on anything
  but an object or an array, and the handler's outer \<open>catch\<close> turns that into the
  internal-error response. The column names of the request are strings.
\<close>

datatype json = JNull | JBool bool | JNum jsnum | JStr string | JArr "json list" | JObj "(string \<times> json) list"

datatype error = MissingField string | InvalidChartType | ColumnsNotFound | InternalError

definition field_in :: "string \<Rightarrow> json \<Rightarrow> bool option" where
  "field_in f c =
     (case c of JObj ps \<Rightarrow> Some (map_of ps f \<noteq> None) | JArr vs \<Rightarrow> Some False | _ \<Rightarrow> None)"

definition get_field :: "json \<Rightarrow> string \<Rightarrow> json option" where
  "get_field c f = (case c of JObj ps \<Rightarrow> map_of ps f | _ \<Rightarrow> None)"

definition json_truthy :: "json option \<Rightarrow> bool" where
  "json_truthy v =
     (case v of
        None \<Rightarrow> False
      | Some JNull \<Rightarrow> False
      | Some (JBool b) \<Rightarrow> b
      | Some (JNum n) \<Rightarrow> num_truthy n
      | Some (JStr s) \<Rightarrow> s \<noteq> []
      | Some _ \<Rightarrow> True)"

definition array_includes :: "string list \<Rightarrow> json option \<Rightarrow> bool" where
  "array_includes xs v = (case v of Some (JStr s) \<Rightarrow> s \<in> set xs | _ \<Rightarrow> False)"

definition requiredFields :: "string list" where
  "requiredFields = [''chartType'', ''x'', ''y'', ''summary'']"

definition validChartTypes :: "string list" where
  "validChartTypes = [''bar'', ''line'', ''pie'', ''scatter'', ''area'']"

definition validTransforms :: "string list" where
  "validTransforms = [''none'', ''sum'', ''average'', ''count'']"

text \<open>The loop over the required fields: the first one that is missing, if any.\<close>

fun check_required :: "string list \<Rightarrow> json \<Rightarrow> error option" where
  "check_required [] c = None"
| "check_required (f # fs) c =
     (case field_in f c of
        None \<Rightarrow> Some InternalError
      | Some False \<Rightarrow> Some (MissingField f)
      | Some True \<Rightarrow> check_required fs c)"

text \<open>
  The conversion to a string that the template literal of the chart-type message applies
  to \<open>chartConfig.chartType\<close>. It throws a \<open>TypeError\<close> for an object that owns a property
  \<open>toString\<close>, which after \<open>JSON.parse\<close> is never a function, so that neither it nor the
  inherited \<open>valueOf\<close> yields a primitive; an array joins the strings of its elements, so
  it throws when one of them does. Every other value has a string.
\<close>

fun to_string_fails :: "json \<Rightarrow> bool" where
  "to_string_fails (JObj ps) = (map_of ps ''toString'' \<noteq> None)"
| "to_string_fails (JArr vs) = (\<exists>v\<in>set vs. to_string_fails v)"
| "to_string_fails JNull = False"
| "to_string_fails (JBool b) = False"
| "to_string_fails (JNum n) = False"
| "to_string_fails (JStr s) = False"

text \<open>
  A value as \<open>NextResponse.json\<close> writes it into the body: \<open>JSON.stringify\<close> writes a
  number that is not finite as \<open>null\<close>.
\<close>

fun wire :: "json \<Rightarrow> json" where
  "wire (JNum n) = (if num_isFinite n then JNum n else JNull)"
| "wire (JArr vs) = JArr (map wire vs)"
| "wire (JObj ps) = JObj (map (map_prod id wire) ps)"
| "wire JNull = JNull"
| "wire (JBool b) = JBool b"
| "wire (JStr s) = JStr s"

text \<open>
  The body of the successful response. The chart type, the columns, the grouping and the
  transform of a response are strings or \<open>null\<close>, which are written as they are.
\<close>

record 'd Response =
  res_chartType :: json
  res_x :: json
  res_y :: json
  res_groupBy :: json
  res_dataTransform :: json
  res_summary :: json
  res_data :: 'd

definition or_null :: "json option \<Rightarrow> json" where
  "or_null v = (if json_truthy v then the v else JNull)"

definition validate :: "string list \<Rightarrow> 'd \<Rightarrow> json \<Rightarrow> error + 'd Response" where
  "validate columns d chartConfig =
     (case check_required requiredFields chartConfig of
        Some e \<Rightarrow> Inl e
      | None \<Rightarrow>
          if \<not> array_includes validChartTypes (get_field chartConfig ''chartType'') then
            (if to_string_fails (the (get_field chartConfig ''chartType'')) then Inl InternalError
             else Inl InvalidChartType)
          else if \<not> array_includes columns (get_field chartConfig ''x'')
                  \<or> \<not> array_includes columns (get_field chartConfig ''y'') then Inl ColumnsNotFound
          else
            let g = get_field chartConfig ''groupBy'';
                g1 = (if json_truthy g \<and> \<not> array_includes columns g then Some JNull else g);
                t = get_field chartConfig ''dataTransform'';
                t1 = (if \<not> json_truthy t \<or> \<not> array_includes validTransforms t then JStr ''none'' else the t)
            in Inr \<lparr> res_chartType = the (get_field chartConfig ''chartType''),
                     res_x = the (get_field chartConfig ''x''),
                     res_y = the (get_field chartConfig ''y''),
                     res_groupBy = or_null g1,
                     res_dataTransform = t1,
                     res_summary = wire (the (get_field chartConfig ''summary'')),
                     res_data = d \<rparr>)"

section \<open>The choice of strategy (renderChart in src/app/page.tsx)\<close>

record ChartConfig =
  cfg_chartType :: string
  cfg_x :: string
  cfg_y :: string
  cfg_groupBy :: "string option"
  cfg_dataTransform :: string
  cfg_data :: "row list"

datatype chartData = PieData "slice list" | Records "jsval obj list"

text \<open>
  The data \<open>renderChart\<close> prepares for the chart, or \<open>None\<close> where it shows the
  no-data message instead. A \<open>groupBy\<close> that is null or empty counts as no grouping.
\<close>

definition chart_data :: "ChartConfig \<Rightarrow> chartData option" where
  "chart_data c =
     (if cfg_data c = [] then None
      else if cfg_chartType c = ''pie'' then
        Some (PieData (preparePieData (cfg_data c) (cfg_x c) (cfg_y c) (cfg_dataTransform c)))
      else if (case cfg_groupBy c of None \<Rightarrow> False | Some g \<Rightarrow> g \<noteq> []) then
        Some (Records (prepareGroupedData (cfg_data c) (cfg_x c) (cfg_y c) (the (cfg_groupBy c))
                         (cfg_dataTransform c)))
      else if cfg_chartType c = ''scatter'' then
        Some (Records (prepareScatterData (cfg_data c) (cfg_x c) (cfg_y c)))
      else Some (Records (preparePlainData (cfg_data c) (cfg_y c))))"

section \<open>Notions the statements use\<close>

text \<open>How many of the values \<open>vs\<close> the profiler classifies as type \<open>t\<close>.\<close>

definition type_count :: "(string \<Rightarrow> bool) \<Rightarrow> coltype \<Rightarrow> string list \<Rightarrow> nat" where
  "type_count validDate t vs = length (filter (\<lambda>v. getValueType validDate v = t) vs)"

text \<open>A date test for the examples: an engine that takes none of the sample texts for a date.\<close>

definition no_dates :: "string \<Rightarrow> bool" where
  "no_dates v = False"

text \<open>
  The x keys and the group keys of a data set, the rows of one cell of the grouped table
  (an x key and a group key), and the sum of their coerced y values, folded in row order
  as the source folds it. \<open>val_text\<close> is the text of a value used as a key.
\<close>

definition x_keys :: "row list \<Rightarrow> string \<Rightarrow> string list" where
  "x_keys rows x = map (\<lambda>r. key_of (cell r x)) rows"

definition group_keys :: "row list \<Rightarrow> string \<Rightarrow> string list" where
  "group_keys rows groupBy = map (\<lambda>r. key_of (cell r groupBy)) rows"

definition cell_rows :: "row list \<Rightarrow> string \<Rightarrow> string \<Rightarrow> string \<Rightarrow> string \<Rightarrow> row list" where
  "cell_rows rows x groupBy xk g =
     filter (\<lambda>r. key_of (cell r x) = xk \<and> key_of (cell r groupBy) = g) rows"

definition cell_sum :: "string \<Rightarrow> row list \<Rightarrow> jsnum" where
  "cell_sum y rs = foldl js_add (Fin 0) (map (\<lambda>r. coerce r y) rs)"

fun val_text :: "jsval \<Rightarrow> string" where
  "val_text Undefined = ''undefined''"
| "val_text (Str s) = s"
| "val_text (Num n) = num_text n"

text \<open>
  No key collision in the grouped table: no x key and no group key is the key
  \<open>__proto__\<close>, which names no property of an object's own; no group key is the name of
  the x column or a counter key \<open>g_count\<close> of a group \<open>g\<close>; and no counter key is the name
  of the x column.
\<close>

definition no_collision :: "row list \<Rightarrow> string \<Rightarrow> string \<Rightarrow> bool" where
  "no_collision rows x groupBy =
     (list_all (\<lambda>g. g \<noteq> x \<and> g @ ''_count'' \<noteq> x \<and> g \<noteq> ''__proto__''
                  \<and> list_all (\<lambda>g'. g' \<noteq> g @ ''_count'') (group_keys rows groupBy))
        (group_keys rows groupBy)
      \<and> list_all (\<lambda>xk. xk \<noteq> ''__proto__'') (x_keys rows x))"

text \<open>
  The state of one record while the rows \<open>rs\<close> have been accumulated under the average
  transform: every group field holds the running sum of its cell, the counter field of a
  cell is absent until its first row and holds the number of rows after it, and the x
  field holds a value whose key is \<open>xk\<close>. In \<open>avg_done\<close> the groups in \<open>P\<close> have been
  post-processed: their field holds the quotient and their counter is gone.
\<close>

definition cell_quotient :: "string \<Rightarrow> row list \<Rightarrow> jsnum" where
  "cell_quotient y rs =
     (if rs = [] then Fin 0 else js_div (cell_sum y rs) (js_of_nat (length rs)))"

definition avg_inv :: "string \<Rightarrow> string \<Rightarrow> string \<Rightarrow> string set \<Rightarrow> row list \<Rightarrow> string \<Rightarrow> jsval obj \<Rightarrow> bool" where
  "avg_inv x y groupBy GK rs xk item =
     ((\<forall>g\<in>GK. map_of item g = Some (Num (cell_sum y (cell_rows rs x groupBy xk g)))
          \<and> map_of item (g @ ''_count'') =
              (if cell_rows rs x groupBy xk g = [] then None
               else Some (Num (js_of_nat (length (cell_rows rs x groupBy xk g))))))
      \<and> (\<exists>xv. key_of xv = xk \<and> map_of item x = Some (cell_val xv)))"

definition avg_done :: "string \<Rightarrow> string \<Rightarrow> string \<Rightarrow> string set \<Rightarrow> string set \<Rightarrow> row list \<Rightarrow> string \<Rightarrow> jsval obj \<Rightarrow> bool" where
  "avg_done x y groupBy GK P rs xk item =
     ((\<forall>g\<in>GK. if g \<in> P
          then map_of item g = Some (Num (cell_quotient y (cell_rows rs x groupBy xk g)))
               \<and> map_of item (g @ ''_count'') = None
          else map_of item g = Some (Num (cell_sum y (cell_rows rs x groupBy xk g)))
               \<and> map_of item (g @ ''_count'') =
                   (if cell_rows rs x groupBy xk g = [] then None
                    else Some (Num (js_of_nat (length (cell_rows rs x groupBy xk g))))))
      \<and> (\<exists>xv. key_of xv = xk \<and> map_of item x = Some (cell_val xv)))"

text \<open>
  For the pie: the rows of one category, the value the four transforms give a list of
  coerced y values (sum, average, count, and the sum for anything else), and the order
  the result is claimed to have.
\<close>

definition category_rows :: "row list \<Rightarrow> string \<Rightarrow> string \<Rightarrow> row list" where
  "category_rows rows x n = filter (\<lambda>r. key_of (cell r x) = n) rows"

definition pie_value :: "string \<Rightarrow> jsnum list \<Rightarrow> jsnum" where
  "pie_value transform ys =
     (if transform = ''average'' then js_div (foldl js_add (Fin 0) ys) (js_of_nat (length ys))
      else if transform = ''count'' then js_of_nat (length ys)
      else foldl js_add (Fin 0) ys)"

definition non_increasing :: "slice list \<Rightarrow> bool" where
  "non_increasing ss = sorted_wrt (\<lambda>a b. js_ge (snd a) (snd b)) ss"

definition all_finite :: "row list \<Rightarrow> string \<Rightarrow> bool" where
  "all_finite rows y = list_all (\<lambda>r. num_isFinite (coerce r y)) rows"

text \<open>The accumulator of a category after the values \<open>ys\<close>.\<close>

definition pie_acc :: "string \<Rightarrow> jsnum list \<Rightarrow> jsnum \<times> jsnum" where
  "pie_acc transform ys = foldl (\<lambda>acc v. pie_update transform v acc) (Fin 0, Fin 0) ys"

section \<open>Overflow\<close>

lemma overflow_threshold_value: "overflow_threshold = 2 ^ 1024 - 2 ^ 970"
  by (simp add: overflow_threshold_def)

lemma overflow_threshold_gt_one: "1 < overflow_threshold"
  by (simp add: overflow_threshold_def)

lemma num_of_rat_cases: "num_of_rat q = PInf \<or> num_of_rat q = NInf \<or> num_of_rat q = Fin q"
  by (simp add: num_of_rat_def)

lemma num_of_rat_not_NaN: "num_of_rat q \<noteq> NaN"
  by (simp add: num_of_rat_def)

lemma num_of_rat_small: "\<bar>q\<bar> \<le> 1 \<Longrightarrow> num_of_rat q = Fin q"
  using overflow_threshold_gt_one by (auto simp: num_of_rat_def)

lemma js_lt_num_of_rat:
  assumes "\<bar>r\<bar> \<le> 1"
  shows "js_lt (Fin r) (num_of_rat q) \<longleftrightarrow> r < q"
  using assms overflow_threshold_gt_one by (auto simp: num_of_rat_def)

lemma js_of_nat_cases: "js_of_nat n = PInf \<or> js_of_nat n = Fin (of_nat n)"
proof -
  have "\<not> rat_of_nat n \<le> - overflow_threshold"
    using overflow_threshold_gt_one of_nat_0_le_iff [of n, where ?'a = rat] by linarith
  then show ?thesis by (simp add: js_of_nat_def num_of_rat_def)
qed

lemma js_of_nat_0: "js_of_nat 0 = Fin 0"
  by (simp add: js_of_nat_def num_of_rat_small)

lemma js_of_nat_1: "js_of_nat (Suc 0) = Fin 1"
  by (simp add: js_of_nat_def num_of_rat_small)

lemma js_of_nat_Suc: "js_add (js_of_nat n) (Fin 1) = js_of_nat (Suc n)"
proof -
  have "overflow_threshold \<le> rat_of_nat n \<Longrightarrow> overflow_threshold \<le> rat_of_nat n + 1"
    by simp
  then show ?thesis
    using js_of_nat_cases [of n]
    by (auto simp: js_of_nat_def num_of_rat_def add.commute split: if_splits)
qed

lemma num_truthy_js_of_nat: "num_truthy (js_of_nat n) \<longleftrightarrow> n \<noteq> 0"
proof (cases "n = 0")
  case True
  then show ?thesis by (simp add: num_truthy_def js_of_nat_0)
next
  case False
  with js_of_nat_cases [of n] show ?thesis by (auto simp: num_truthy_def)
qed

lemma overflow_samples: "parseFloat ''2e308'' = PInf" "Number ''-2e308'' = NInf"
  by code_simp+

section \<open>The builtins on sample texts\<close>

lemma parseFloat_samples:
  "map parseFloat [''12.5'', ''12abc'', '' 3.5e2x'', ''.5'', ''abc'', [], ''Infinity'', ''-Infinity'']
     = [Fin (25 / 2), Fin 12, Fin 350, Fin (1 / 2), NaN, NaN, PInf, NInf]"
  by code_simp

lemma Number_samples:
  "map Number [''12.5'', ''12abc'', '' 3.5e2 '', ''  '', ''0x1A'', ''Infinity'', ''1e'']
     = [Fin (25 / 2), NaN, Fin 350, Fin 0, Fin 26, PInf, NaN]"
  by code_simp

lemma is_index_samples:
  "map is_index [''2'', ''10'', ''1.5'', ''01'', ''0'', [], ''4294967294'', ''4294967295'']
     = [True, True, False, False, True, False, True, False]"
  by code_simp

section \<open>Objects\<close>

lemma map_of_obj_insert_new:
  "map_of ob k = None \<Longrightarrow> map_of (obj_insert_new k v ob) = (map_of ob)(k \<mapsto> v)"
proof (induction ob)
  case Nil
  then show ?case by simp
next
  case (Cons p ps)
  then have ne: "fst p \<noteq> k" and none: "map_of ps k = None"
    by (auto split: if_splits)
  show ?case
  proof (cases "key_before k (fst p)")
    case True
    then show ?thesis by (cases p) (auto simp: fun_upd_def)
  next
    case False
    with Cons.IH [OF none] ne show ?thesis
      by (cases p) (auto simp: fun_upd_twist)
  qed
qed

lemma map_of_obj_define: "map_of (obj_define k v ob) = (map_of ob)(k \<mapsto> v)"
  by (simp add: obj_define_def map_of_obj_insert_new update_conv')

lemma map_of_obj_assign:
  "map_of (obj_assign k v ob) = (if k = ''__proto__'' then map_of ob else (map_of ob)(k \<mapsto> v))"
  by (simp add: obj_assign_def map_of_obj_define)

lemma map_of_obj_delete: "map_of (obj_delete k ob) = (map_of ob)(k := None)"
  by (simp add: obj_delete_def delete_conv')

lemma keys_obj_insert_new: "fst ` set (obj_insert_new k v ob) = insert k (fst ` set ob)"
  by (induction ob) auto

lemma distinct_obj_insert_new:
  "distinct (map fst ob) \<Longrightarrow> k \<notin> fst ` set ob \<Longrightarrow> distinct (map fst (obj_insert_new k v ob))"
proof (induction ob)
  case Nil
  then show ?case by simp
next
  case (Cons p ps)
  then show ?case
    using keys_obj_insert_new [of k v ps] by auto
qed

lemma distinct_obj_define:
  "distinct (map fst ob) \<Longrightarrow> distinct (map fst (obj_define k v ob))"
  by (auto simp: obj_define_def distinct_update map_of_eq_None_iff intro: distinct_obj_insert_new)

lemma distinct_obj_assign:
  "distinct (map fst ob) \<Longrightarrow> distinct (map fst (obj_assign k v ob))"
  by (simp add: obj_assign_def distinct_obj_define)

section \<open>Scatter\<close>

lemma or_zero_not_NaN: "or_zero n \<noteq> NaN"
  by (simp add: or_zero_def num_truthy_def)

lemma scatter_row_kept:
  "k = x \<or> k = y \<Longrightarrow>
     \<not> isNaN (obj_read (obj_define y (Num (or_zero b)) (obj_define x (Num (or_zero a)) ob)) k)"
  by (auto simp: isNaN_def obj_read_def map_of_obj_define num_isNaN_def or_zero_not_NaN)

text \<open>
  The filter of \<open>prepareScatterData\<close> never removes a row: \<open>|| 0\<close> has already replaced
  every NaN by 0 when the filter looks at the two fields.
\<close>

lemma prepareScatterData_keeps_every_row:
  "prepareScatterData rows x y =
     map (\<lambda>r. obj_define y (Num (coerce r y)) (obj_define x (Num (coerce r x)) (spread r))) rows"
  unfolding prepareScatterData_def coerce_def
  by (rule filter_True) (auto simp: scatter_row_kept)

text \<open>
  C1. The claim: in the Scatter strategy a row whose x or y cell does not parse as a
  number is excluded from the output rather than zero-filled. On the one row with
  \<open>a = "abc"\<close> and \<open>b = "1"\<close> the function returns the row with \<open>a\<close> replaced by 0: the
  row is kept and zero-filled.
\<close>

theorem scatter_zero_fills_unparseable:
  "prepareScatterData [[(''a'', ''abc''), (''b'', ''1'')]] ''a'' ''b''
     = [[(''a'', Num (Fin 0)), (''b'', Num (Fin 1))]]"
  by code_simp

section \<open>Validator\<close>






text \<open>
  Two proposals on the edge: a \<open>chartType\<close> that owns a \<open>toString\<close> is rejected by the
  internal error, and a \<open>summary\<close> that overflows to an infinity is returned as \<open>null\<close>.
\<close>

lemma validate_unconvertible_chartType:
  "validate [''month'', ''sales''] ()
     (JObj [(''chartType'', JObj [(''toString'', JNum (Fin 1))]), (''x'', JStr ''month''),
            (''y'', JStr ''sales''), (''summary'', JStr ''s'')])
   = Inl InternalError"
  by code_simp

lemma validate_infinite_summary:
  "validate [''month'', ''sales''] ()
     (JObj [(''chartType'', JStr ''bar''), (''x'', JStr ''month''), (''y'', JStr ''sales''),
            (''summary'', JNum PInf)])
   = Inr \<lparr> res_chartType = JStr ''bar'', res_x = JStr ''month'', res_y = JStr ''sales'',
             res_groupBy = JNull, res_dataTransform = JStr ''none'', res_summary = JNull,
             res_data = () \<rparr>"
  by code_simp

lemma array_includes_cases:
  "array_includes xs v \<longleftrightarrow> (\<exists>s\<in>set xs. v = Some (JStr s))"
  by (auto simp: array_includes_def split: option.splits json.splits)

lemma groupBy_result:
  "or_null (if json_truthy g \<and> \<not> array_includes columns g then Some JNull else g) =
     (if array_includes columns g \<and> json_truthy g then the g else JNull)"
  by (simp add: or_null_def json_truthy_def)

lemma validate_Inr:
  assumes "validate columns d c = Inr r"
  shows "res_groupBy r =
           (if array_includes columns (get_field c ''groupBy'') \<and> json_truthy (get_field c ''groupBy'')
            then the (get_field c ''groupBy'') else JNull)"
    and "res_dataTransform r =
           (if array_includes validTransforms (get_field c ''dataTransform'')
            then the (get_field c ''dataTransform'') else JStr ''none'')"
proof -
  from assms have ok: "check_required requiredFields c = None"
      "array_includes validChartTypes (get_field c ''chartType'')"
      "array_includes columns (get_field c ''x'')" "array_includes columns (get_field c ''y'')"
    unfolding validate_def Let_def by (auto split: option.splits if_splits)
  have r: "r = \<lparr> res_chartType = the (get_field c ''chartType''),
                     res_x = the (get_field c ''x''),
                     res_y = the (get_field c ''y''),
                     res_groupBy = or_null (if json_truthy (get_field c ''groupBy'') \<and> \<not> array_includes columns (get_field c ''groupBy'') then Some JNull else get_field c ''groupBy''),
                     res_dataTransform = (if \<not> json_truthy (get_field c ''dataTransform'') \<or> \<not> array_includes validTransforms (get_field c ''dataTransform'') then JStr ''none'' else the (get_field c ''dataTransform'')),
                     res_summary = wire (the (get_field c ''summary'')),
                     res_data = d \<rparr>"
    using assms unfolding validate_def Let_def
    by (simp add: ok split del: if_split)
  show "res_groupBy r =
           (if array_includes columns (get_field c ''groupBy'') \<and> json_truthy (get_field c ''groupBy'')
            then the (get_field c ''groupBy'') else JNull)"
    by (subst r) (simp add: groupBy_result split del: if_split)
  show "res_dataTransform r =
           (if array_includes validTransforms (get_field c ''dataTransform'')
            then the (get_field c ''dataTransform'') else JStr ''none'')"
    by (subst r) (auto simp: array_includes_cases json_truthy_def validTransforms_def)
qed

text \<open>
  C9. For every proposal that passes the three rejecting checks, the returned \<open>groupBy\<close>
  is null or the name of a column, and it is null whenever the proposed \<open>groupBy\<close> is
  absent, null or not a column; the returned \<open>dataTransform\<close> is one of the four
  transforms: the proposed one when that is one of the four, and \<open>none\<close> when it is
  absent or anything else. Neither repair produces an error.
\<close>

theorem validated_fields_in_range:
  assumes "validate columns d c = Inr r"
  shows "(res_groupBy r = JNull \<or> (\<exists>g\<in>set columns. res_groupBy r = JStr g))
       \<and> (\<exists>t\<in>set validTransforms. res_dataTransform r = JStr t)
       \<and> (if array_includes columns (get_field c ''groupBy'') then True else res_groupBy r = JNull)
       \<and> (if array_includes validTransforms (get_field c ''dataTransform'')
           then Some (res_dataTransform r) = get_field c ''dataTransform''
           else res_dataTransform r = JStr ''none'')"
proof -
  note v = validate_Inr [OF assms]
  have g: "res_groupBy r = JNull \<or> (\<exists>g\<in>set columns. res_groupBy r = JStr g)"
    unfolding v(1) by (auto simp: array_includes_cases)
  have t: "\<exists>t\<in>set validTransforms. res_dataTransform r = JStr t"
    unfolding v(2) by (auto simp: array_includes_cases validTransforms_def)
  have g': "if array_includes columns (get_field c ''groupBy'') then True else res_groupBy r = JNull"
    unfolding v(1) by simp
  have t': "if array_includes validTransforms (get_field c ''dataTransform'')
           then Some (res_dataTransform r) = get_field c ''dataTransform''
           else res_dataTransform r = JStr ''none''"
    unfolding v(2) by (auto simp: array_includes_cases)
  from g t g' t' show ?thesis by blast
qed

theorem validated_fields_in_range_witness:
  "validate [''month'', ''sales'', ''region''] ()
     (JObj [(''chartType'', JStr ''bar''), (''x'', JStr ''month''), (''y'', JStr ''sales''),
            (''summary'', JStr ''s''), (''groupBy'', JStr ''nonexistent_col''),
            (''dataTransform'', JStr ''median'')])
     = Inr \<lparr> res_chartType = JStr ''bar'', res_x = JStr ''month'', res_y = JStr ''sales'',
             res_groupBy = JNull, res_dataTransform = JStr ''none'', res_summary = JStr ''s'',
             res_data = () \<rparr>
   \<and> res_groupBy \<lparr> res_chartType = JStr ''bar'', res_x = JStr ''month'', res_y = JStr ''sales'',
             res_groupBy = JNull, res_dataTransform = JStr ''none'', res_summary = JStr ''s'',
             res_data = () \<rparr> = JNull
   \<and> (\<exists>t\<in>set validTransforms.
         res_dataTransform \<lparr> res_chartType = JStr ''bar'', res_x = JStr ''month'',
             res_y = JStr ''sales'', res_groupBy = JNull, res_dataTransform = JStr ''none'',
             res_summary = JStr ''s'', res_data = () \<rparr> = JStr t)"
proof -
  have run: "validate [''month'', ''sales'', ''region''] ()
     (JObj [(''chartType'', JStr ''bar''), (''x'', JStr ''month''), (''y'', JStr ''sales''),
            (''summary'', JStr ''s''), (''groupBy'', JStr ''nonexistent_col''),
            (''dataTransform'', JStr ''median'')])
     = Inr \<lparr> res_chartType = JStr ''bar'', res_x = JStr ''month'', res_y = JStr ''sales'',
             res_groupBy = JNull, res_dataTransform = JStr ''none'', res_summary = JStr ''s'',
             res_data = () \<rparr>"
    by code_simp
  from validated_fields_in_range [OF run] run show ?thesis by simp
qed

section \<open>Sorting with a comparator\<close>

lemma mset_js_insert: "mset (js_insert cmp a bs) = add_mset a (mset bs)"
  by (induction bs) auto

lemma js_sort_by_snoc: "js_sort_by cmp (xs @ [a]) = js_insert cmp a (js_sort_by cmp xs)"
  by (simp add: js_sort_by_def)

lemma mset_js_sort_by: "mset (js_sort_by cmp xs) = mset xs"
  by (induction xs rule: rev_induct) (simp_all add: js_sort_by_snoc mset_js_insert, simp add: js_sort_by_def)

lemma set_js_sort_by: "set (js_sort_by cmp xs) = set xs"
  using mset_js_sort_by [of cmp xs] by (metis set_mset_mset)

lemma sorted_js_insert:
  fixes k :: "'a \<Rightarrow> 'b::linorder"
  assumes "\<And>b. b \<in> set bs \<Longrightarrow> js_gt (cmp b a) (Fin 0) = (k b < k a)"
    and "sorted_wrt (\<lambda>p q. k q \<le> k p) bs"
  shows "sorted_wrt (\<lambda>p q. k q \<le> k p) (js_insert cmp a bs)"
  using assms
proof (induction bs)
  case Nil
  then show ?case by simp
next
  case (Cons b bs)
  have set_ins: "set (js_insert cmp a bs) = insert a (set bs)"
    using mset_js_insert [of cmp a bs] by (metis set_mset_mset set_mset_add_mset_insert)
  show ?case
  proof (cases "k b < k a")
    case True
    with Cons.prems show ?thesis by (auto simp: less_imp_le dest: order_trans)
  next
    case False
    with Cons show ?thesis by (auto simp: set_ins not_less)
  qed
qed

lemma sorted_js_sort_by:
  fixes k :: "'a \<Rightarrow> 'b::linorder"
  assumes "\<And>a b. a \<in> set xs \<Longrightarrow> b \<in> set xs \<Longrightarrow> js_gt (cmp b a) (Fin 0) = (k b < k a)"
  shows "sorted_wrt (\<lambda>p q. k q \<le> k p) (js_sort_by cmp xs)"
  using assms
proof (induction xs rule: rev_induct)
  case Nil
  then show ?case by (simp add: js_sort_by_def)
next
  case (snoc a xs)
  have "sorted_wrt (\<lambda>p q. k q \<le> k p) (js_sort_by cmp xs)"
    using snoc by simp
  moreover have "\<And>b. b \<in> set (js_sort_by cmp xs) \<Longrightarrow> js_gt (cmp b a) (Fin 0) = (k b < k a)"
    using snoc.prems by (simp add: set_js_sort_by)
  ultimately show ?case
    unfolding js_sort_by_snoc by (rule sorted_js_insert [rotated])
qed

text \<open>
  The same for a comparator that decides a relation \<open>R\<close> which need not come from a
  linear order of keys: on the elements of \<open>S\<close>, where the comparator is positive the
  new element goes in front, and \<open>R\<close> is transitive.
\<close>

lemma sorted_js_insert_rel:
  assumes gt: "\<forall>a\<in>S. \<forall>b\<in>S. js_gt (cmp b a) (Fin 0) \<longrightarrow> R a b"
    and le: "\<forall>a\<in>S. \<forall>b\<in>S. \<not> js_gt (cmp b a) (Fin 0) \<longrightarrow> R b a"
    and tr: "\<forall>a\<in>S. \<forall>b\<in>S. \<forall>c\<in>S. R a b \<longrightarrow> R b c \<longrightarrow> R a c"
    and a: "a \<in> S"
  shows "set bs \<subseteq> S \<Longrightarrow> sorted_wrt R bs \<Longrightarrow> sorted_wrt R (js_insert cmp a bs)"
proof (induction bs)
  case Nil
  then show ?case by simp
next
  case (Cons b bs)
  have set_ins: "set (js_insert cmp a bs) = insert a (set bs)"
    using mset_js_insert [of cmp a bs] by (metis set_mset_mset set_mset_add_mset_insert)
  from Cons.prems have b: "b \<in> S" and bs: "set bs \<subseteq> S"
    and first: "\<forall>c\<in>set bs. R b c" and sorted: "sorted_wrt R bs"
    by simp_all
  show ?case
  proof (cases "js_gt (cmp b a) (Fin 0)")
    case True
    with gt a b have ab: "R a b" by blast
    have "R a c" if "c \<in> set bs" for c
    proof -
      from that bs have "c \<in> S" by blast
      moreover from that first have "R b c" by blast
      ultimately show ?thesis using tr a b ab by blast
    qed
    with True ab first sorted show ?thesis by simp
  next
    case False
    with le a b have ba: "R b a" by blast
    from bs sorted have "sorted_wrt R (js_insert cmp a bs)"
      by (rule Cons.IH)
    with False ba first show ?thesis by (simp add: set_ins)
  qed
qed

lemma sorted_js_sort_by_rel:
  assumes gt: "\<forall>a\<in>S. \<forall>b\<in>S. js_gt (cmp b a) (Fin 0) \<longrightarrow> R a b"
    and le: "\<forall>a\<in>S. \<forall>b\<in>S. \<not> js_gt (cmp b a) (Fin 0) \<longrightarrow> R b a"
    and tr: "\<forall>a\<in>S. \<forall>b\<in>S. \<forall>c\<in>S. R a b \<longrightarrow> R b c \<longrightarrow> R a c"
  shows "set xs \<subseteq> S \<Longrightarrow> sorted_wrt R (js_sort_by cmp xs)"
proof (induction xs rule: rev_induct)
  case Nil
  then show ?case by (simp add: js_sort_by_def)
next
  case (snoc a xs)
  then have a: "a \<in> S" and xs: "set (js_sort_by cmp xs) \<subseteq> S"
    and sorted: "sorted_wrt R (js_sort_by cmp xs)"
    by (simp_all add: set_js_sort_by)
  show ?case
    unfolding js_sort_by_snoc
    by (rule sorted_js_insert_rel [OF gt le tr a xs sorted])
qed

section \<open>Profiler\<close>

lemma typeCounts_snoc:
  "typeCounts (ts @ [t]) =
     AList.update t ((case map_of (typeCounts ts) t of None \<Rightarrow> 0 | Some c \<Rightarrow> c) + 1) (typeCounts ts)"
  by (simp add: typeCounts_def)

lemma map_of_typeCounts:
  "map_of (typeCounts ts) t = (if t \<in> set ts then Some (length (filter (\<lambda>u. u = t) ts)) else None)"
proof (induction ts rule: rev_induct)
  case Nil
  then show ?case by (simp add: typeCounts_def)
next
  case (snoc u ts)
  then show ?case by (auto simp: typeCounts_snoc update_conv' filter_empty_conv)
qed

lemma distinct_typeCounts: "distinct (map fst (typeCounts ts))"
  by (induction ts rule: rev_induct) (simp_all add: typeCounts_snoc distinct_update, simp add: typeCounts_def)

lemma typeCounts_entry:
  "p \<in> set (typeCounts ts) \<longleftrightarrow> fst p \<in> set ts \<and> snd p = length (filter (\<lambda>u. u = fst p) ts)"
proof -
  have "p \<in> set (typeCounts ts) \<longleftrightarrow> map_of (typeCounts ts) (fst p) = Some (snd p)"
    using distinct_typeCounts [of ts] by (cases p) simp
  then show ?thesis by (auto simp: map_of_typeCounts)
qed

lemma sortedTypes_sorted: "sorted_wrt (\<lambda>p q. snd q \<le> snd p) (sortedTypes ts)"
  unfolding sortedTypes_def
  by (rule sorted_js_sort_by) (simp add: js_gt_def js_sub_def js_lt_num_of_rat)

lemma sortedTypes_set: "set (sortedTypes ts) = set (typeCounts ts)"
  by (simp add: sortedTypes_def set_js_sort_by)

lemma sortedTypes_not_empty: "ts \<noteq> [] \<Longrightarrow> sortedTypes ts \<noteq> []"
proof -
  assume "ts \<noteq> []"
  then have "(hd ts, length (filter (\<lambda>u. u = hd ts) ts)) \<in> set (typeCounts ts)"
    by (simp add: typeCounts_entry)
  then show ?thesis
    using sortedTypes_set [of ts] by auto
qed

lemma two_majorities:
  "t \<noteq> t' \<Longrightarrow> length (filter (\<lambda>v. f v = t) vs) + length (filter (\<lambda>v. f v = t') vs) \<le> length vs"
  by (induction vs) auto

lemma share_exceeds_half:
  "0 < n \<Longrightarrow> js_gt (js_div (Fin (of_nat c)) (Fin (of_nat n))) (Fin (1 / 2)) \<longleftrightarrow> n < 2 * c"
proof -
  assume n: "0 < n"
  then have "js_gt (js_div (Fin (of_nat c)) (Fin (of_nat n))) (Fin (1 / 2))
      \<longleftrightarrow> (1 / 2 :: rat) < of_nat c / of_nat n"
    by (simp add: js_gt_def js_lt_num_of_rat)
  also from n have "\<dots> \<longleftrightarrow> (of_nat n :: rat) < 2 * of_nat c"
    by (simp add: field_simps)
  also have "\<dots> \<longleftrightarrow> (of_nat n :: rat) < of_nat (2 * c)"
    by simp
  also have "\<dots> \<longleftrightarrow> n < 2 * c"
    by (simp only: of_nat_less_iff)
  finally show ?thesis .
qed

lemma resolve_type_majority:
  "resolve_type validDate vs =
     (if length vs < 2 * type_count validDate Numeric vs then Numeric
      else if length vs < 2 * type_count validDate Date vs then Date
      else Text)"
proof (cases "vs = []")
  case True
  then show ?thesis by (simp add: resolve_type_def type_count_def)
next
  case False
  define f where "f = getValueType validDate"
  define ts where "ts = map f vs"
  define cnt where "cnt t = length (filter (\<lambda>v. f v = t) vs)" for t
  have cnt_ts: "length (filter (\<lambda>u. u = t) ts) = cnt t" for t
    by (simp add: ts_def cnt_def filter_map comp_def)
  from False have "ts \<noteq> []" by (simp add: ts_def)
  then obtain p ps where st: "sortedTypes ts = p # ps"
    using sortedTypes_not_empty by (cases "sortedTypes ts") auto
  then have "p \<in> set (typeCounts ts)"
    using sortedTypes_set [of ts] by auto
  then have p: "snd p = cnt (fst p)"
    by (simp add: typeCounts_entry cnt_ts)
  have top: "cnt t \<le> snd p" for t
  proof (cases "t \<in> set ts")
    case True
    then have "(t, cnt t) \<in> set (sortedTypes ts)"
      by (simp add: sortedTypes_set typeCounts_entry cnt_ts)
    with sortedTypes_sorted [of ts] show ?thesis
      unfolding st by auto
  next
    case False
    then have "cnt t = 0"
      by (auto simp: ts_def cnt_def filter_empty_conv)
    then show ?thesis by simp
  qed
  have only: "t = fst p" if "length vs < 2 * cnt t" and "length vs < 2 * snd p" for t
  proof (rule ccontr)
    assume "t \<noteq> fst p"
    then have "cnt t + cnt (fst p) \<le> length vs"
      unfolding cnt_def by (rule two_majorities)
    with that p show False by simp
  qed
  have share: "js_gt (js_div (Fin (of_nat (snd p))) (Fin (of_nat (length ts)))) (Fin (1 / 2))
      \<longleftrightarrow> length vs < 2 * snd p"
    using False share_exceeds_half [of "length ts" "snd p"] by (simp add: ts_def)
  have res: "resolve_type validDate vs = (if length vs < 2 * snd p then fst p else Text)"
    using False st share
    by (simp add: resolve_type_def Let_def f_def [symmetric] ts_def [symmetric] del: js_div.simps)
  have tc: "type_count validDate t vs = cnt t" for t
    by (simp add: type_count_def cnt_def f_def)
  show ?thesis
  proof (cases "length vs < 2 * snd p")
    case True
    then show ?thesis
      using only [of Numeric] only [of Date] p
      by (cases "fst p") (auto simp: res tc)
  next
    case False
    then show ?thesis
      using top [of Numeric] top [of Date] by (simp add: res tc)
  qed
qed


lemma type_counts_total:
  "type_count validDate Numeric vs + type_count validDate Date vs + type_count validDate Text vs
     = length vs"
  unfolding type_count_def
proof (induction vs)
  case Nil
  then show ?case by simp
next
  case (Cons v vs)
  then show ?case by (cases "getValueType validDate v") simp_all
qed

text \<open>
  C5. Every non-empty value of a column gets exactly one of the three types, numeric
  before date before text, and the column's type is Numeric or Date only when that type
  holds strictly more than half of the non-empty values; in every other case (a tie, a
  plurality of at most half, or no value at all) the column is Text.
\<close>

theorem profiler_strict_majority:
  "col_type (columnInfo validDate rows c) =
     (if length (column_values rows c) < 2 * type_count validDate Numeric (column_values rows c)
      then Numeric
      else if length (column_values rows c) < 2 * type_count validDate Date (column_values rows c)
      then Date
      else Text)
   \<and> type_count validDate Numeric (column_values rows c)
       + type_count validDate Date (column_values rows c)
       + type_count validDate Text (column_values rows c) = length (column_values rows c)
   \<and> getValueType validDate v =
       (if \<not> num_isNaN (parseFloat v) \<and> num_isFinite (Number v) \<and> trim v \<noteq> [] then Numeric
        else if validDate v \<and> trim v \<noteq> [] then Date else Text)"
  by (simp add: columnInfo_def Let_def resolve_type_majority type_counts_total getValueType_def)

theorem profiler_strict_majority_witness:
  "col_type (columnInfo no_dates [[(''a'', ''1'')], [(''a'', ''x'')], [(''a'', [])]] ''a'') = Text
   \<and> column_values [[(''a'', ''1'')], [(''a'', ''x'')], [(''a'', [])]] ''a'' = [''1'', ''x'']
   \<and> type_count no_dates Numeric [''1'', ''x''] = 1"
proof -
  have vs: "column_values [[(''a'', ''1'')], [(''a'', ''x'')], [(''a'', [])]] ''a'' = [''1'', ''x'']"
    by code_simp
  have n: "type_count no_dates Numeric [''1'', ''x''] = 1"
    by code_simp
  have d: "type_count no_dates Date [''1'', ''x''] = 0"
    by code_simp
  from profiler_strict_majority [of no_dates "[[(''a'', ''1'')], [(''a'', ''x'')], [(''a'', [])]]" "''a''"]
  show ?thesis
    by (simp add: vs n d)
qed

section \<open>Range of a numeric column\<close>

lemma js_le_trans: "js_le a b \<Longrightarrow> js_le b c \<Longrightarrow> js_le a c"
  by (cases a; cases b; cases c) (auto simp: js_le_def js_ge_def)

lemma js_le_refl: "a \<noteq> NaN \<Longrightarrow> js_le a a"
  by (simp add: js_le_def js_ge_def)

lemma js_min2_props:
  "a \<noteq> NaN \<Longrightarrow> b \<noteq> NaN \<Longrightarrow> js_min2 a b \<noteq> NaN \<and> js_le (js_min2 a b) a \<and> js_le (js_min2 a b) b"
  by (cases a; cases b) (auto simp: js_min2_def js_le_def js_ge_def)

lemma js_max2_props:
  "a \<noteq> NaN \<Longrightarrow> b \<noteq> NaN \<Longrightarrow> js_max2 a b \<noteq> NaN \<and> js_le a (js_max2 a b) \<and> js_le b (js_max2 a b)"
  by (cases a; cases b) (auto simp: js_max2_def js_le_def js_ge_def)

lemma foldl_js_min2:
  "NaN \<notin> set xs \<Longrightarrow> a \<noteq> NaN \<Longrightarrow>
     foldl js_min2 a xs \<noteq> NaN \<and> js_le (foldl js_min2 a xs) a
     \<and> (\<forall>v\<in>set xs. js_le (foldl js_min2 a xs) v)"
proof (induction xs arbitrary: a)
  case Nil
  then show ?case by (simp add: js_le_refl)
next
  case (Cons x xs)
  then have x: "x \<noteq> NaN" and xs: "NaN \<notin> set xs" by auto
  note m = js_min2_props [OF Cons.prems(2) x]
  from Cons.IH [OF xs, of "js_min2 a x"] m
  show ?case by (auto intro: js_le_trans)
qed

lemma foldl_js_max2:
  "NaN \<notin> set xs \<Longrightarrow> a \<noteq> NaN \<Longrightarrow>
     foldl js_max2 a xs \<noteq> NaN \<and> js_le a (foldl js_max2 a xs)
     \<and> (\<forall>v\<in>set xs. js_le v (foldl js_max2 a xs))"
proof (induction xs arbitrary: a)
  case Nil
  then show ?case by (simp add: js_le_refl)
next
  case (Cons x xs)
  then have x: "x \<noteq> NaN" and xs: "NaN \<notin> set xs" by auto
  note m = js_max2_props [OF Cons.prems(2) x]
  from Cons.IH [OF xs, of "js_max2 a x"] m
  show ?case by (auto intro: js_le_trans)
qed

lemma Math_min_le_Math_max:
  assumes "NaN \<notin> set xs" and "xs \<noteq> []"
  shows "js_le (Math_min xs) (Math_max xs)"
proof -
  from assms(2) obtain v where v: "v \<in> set xs" by (cases xs) auto
  have "js_le (Math_min xs) v"
    using foldl_js_min2 [OF assms(1), of PInf] v by (simp add: Math_min_def)
  moreover have "js_le v (Math_max xs)"
    using foldl_js_max2 [OF assms(1), of NInf] v by (simp add: Math_max_def)
  ultimately show ?thesis by (rule js_le_trans)
qed

lemma numeric_values_not_NaN: "NaN \<notin> set (numeric_values validDate vs)"
  by (auto simp: numeric_values_def getValueType_def num_isNaN_def split: if_splits)

lemma numeric_values_empty:
  "numeric_values validDate vs = [] \<longleftrightarrow> type_count validDate Numeric vs = 0"
  by (simp add: numeric_values_def type_count_def)

lemma Numeric_has_values:
  "resolve_type validDate vs = Numeric \<Longrightarrow> numeric_values validDate vs \<noteq> []"
  by (auto simp: resolve_type_majority numeric_values_empty split: if_splits)

text \<open>
  C6, as the code has it. A column is Numeric when strictly more than half of its
  non-empty values classify as numeric, and whenever both \<open>min\<close> and \<open>max\<close> are defined,
  \<open>min \<le> max\<close>. (At exactly half the column is Text: see the counterexample.)
\<close>

theorem numeric_majority_and_range:
  "(length (column_values rows c) < 2 * type_count validDate Numeric (column_values rows c)
      \<longrightarrow> col_type (columnInfo validDate rows c) = Numeric)
   \<and> (col_min (columnInfo validDate rows c) = Some lo \<and> col_max (columnInfo validDate rows c) = Some hi
      \<longrightarrow> js_le lo hi)"
proof -
  have "js_le lo hi"
    if "col_min (columnInfo validDate rows c) = Some lo"
      and "col_max (columnInfo validDate rows c) = Some hi"
  proof -
    from that have "lo = Math_min (numeric_values validDate (column_values rows c))"
      and "hi = Math_max (numeric_values validDate (column_values rows c))"
      and "numeric_values validDate (column_values rows c) \<noteq> []"
      by (auto simp: columnInfo_def Let_def split: if_splits)
    then show ?thesis
      using Math_min_le_Math_max [OF numeric_values_not_NaN] by simp
  qed
  then show ?thesis
    by (simp add: columnInfo_def Let_def resolve_type_majority)
qed

theorem numeric_majority_and_range_witness:
  "col_type (columnInfo no_dates [[(''a'', ''1'')], [(''a'', ''z'')], [(''a'', ''7'')]] ''a'') = Numeric
   \<and> js_le (Fin 1) (Fin 7)"
proof -
  have vs: "column_values [[(''a'', ''1'')], [(''a'', ''z'')], [(''a'', ''7'')]] ''a'' = [''1'', ''z'', ''7'']"
    by code_simp
  have n: "type_count no_dates Numeric [''1'', ''z'', ''7''] = 2"
    by code_simp
  have lo: "col_min (columnInfo no_dates [[(''a'', ''1'')], [(''a'', ''z'')], [(''a'', ''7'')]] ''a'') = Some (Fin 1)"
    by code_simp
  have hi: "col_max (columnInfo no_dates [[(''a'', ''1'')], [(''a'', ''z'')], [(''a'', ''7'')]] ''a'') = Some (Fin 7)"
    by code_simp
  from numeric_majority_and_range
    [of "[[(''a'', ''1'')], [(''a'', ''z'')], [(''a'', ''7'')]]" "''a''" no_dates "Fin 1" "Fin 7"]
  show ?thesis
    by (simp add: vs n lo hi)
qed

text \<open>
  The claim C6 at exactly half: of the two values \<open>1\<close> and \<open>x\<close> one parses as a number,
  which is 50 percent, and the column is not Numeric.
\<close>

theorem half_numeric_is_not_Numeric:
  "length (column_values [[(''a'', ''1'')], [(''a'', ''x'')]] ''a'')
     \<le> 2 * type_count no_dates Numeric (column_values [[(''a'', ''1'')], [(''a'', ''x'')]] ''a'')
   \<and> col_type (columnInfo no_dates [[(''a'', ''1'')], [(''a'', ''x'')]] ''a'') = Text"
  by code_simp

text \<open>
  C7. \<open>min\<close> and \<open>max\<close> are present exactly when the column's type is Numeric and at
  least one value classifies as numeric (which a Numeric column always has), and then
  they are \<open>Math.min\<close> and \<open>Math.max\<close> of \<open>parseFloat\<close> over the values that classify as
  numeric, not over all values.
\<close>

theorem min_max_presence:
  "(col_min (columnInfo validDate rows c) \<noteq> None \<longleftrightarrow>
      col_type (columnInfo validDate rows c) = Numeric
      \<and> 0 < type_count validDate Numeric (column_values rows c))
   \<and> (col_max (columnInfo validDate rows c) \<noteq> None \<longleftrightarrow>
      col_type (columnInfo validDate rows c) = Numeric
      \<and> 0 < type_count validDate Numeric (column_values rows c))
   \<and> (col_type (columnInfo validDate rows c) = Numeric \<longrightarrow>
        col_min (columnInfo validDate rows c) =
          Some (Math_min (map parseFloat
            (filter (\<lambda>v. getValueType validDate v = Numeric) (column_values rows c))))
      \<and> col_max (columnInfo validDate rows c) =
          Some (Math_max (map parseFloat
            (filter (\<lambda>v. getValueType validDate v = Numeric) (column_values rows c)))))"
proof -
  define vs where "vs = column_values rows c"
  have nums: "resolve_type validDate vs = Numeric \<Longrightarrow> numeric_values validDate vs \<noteq> []"
    by (rule Numeric_has_values)
  have pos: "numeric_values validDate vs \<noteq> [] \<longleftrightarrow> 0 < type_count validDate Numeric vs"
    by (simp add: numeric_values_empty)
  show ?thesis
    unfolding columnInfo_def Let_def vs_def [symmetric]
    using nums pos by (auto simp: numeric_values_def)
qed

theorem min_max_presence_witness:
  "col_type (columnInfo no_dates [[(''a'', ''1'')], [(''a'', ''z'')], [(''a'', ''7'')]] ''a'') = Numeric
   \<and> col_min (columnInfo no_dates [[(''a'', ''1'')], [(''a'', ''z'')], [(''a'', ''7'')]] ''a'')
       = Some (Math_min [Fin 1, Fin 7])
   \<and> col_max (columnInfo no_dates [[(''a'', ''1'')], [(''a'', ''z'')], [(''a'', ''7'')]] ''a'')
       = Some (Math_max [Fin 1, Fin 7])"
proof -
  have ty: "col_type (columnInfo no_dates [[(''a'', ''1'')], [(''a'', ''z'')], [(''a'', ''7'')]] ''a'') = Numeric"
    by code_simp
  have nums: "map parseFloat (filter (\<lambda>v. getValueType no_dates v = Numeric)
      (column_values [[(''a'', ''1'')], [(''a'', ''z'')], [(''a'', ''7'')]] ''a'')) = [Fin 1, Fin 7]"
    by code_simp
  from min_max_presence [of no_dates "[[(''a'', ''1'')], [(''a'', ''z'')], [(''a'', ''7'')]]" "''a''"]
  show ?thesis
    by (simp add: ty nums)
qed

section \<open>Grouped strategy\<close>

lemma count_key_not_proto: "g @ ''_count'' \<noteq> ''__proto__''"
proof
  assume "g @ ''_count'' = ''__proto__''"
  then have "last (g @ ''_count'') = last ''__proto__''" by simp
  then show False by simp
qed

lemma map_of_init_item:
  "map_of (init_item x G xv) k =
     (if k \<in> key_of ` set G \<and> k \<noteq> ''__proto__'' then Some (Num (Fin 0))
      else if k = x then Some (cell_val xv) else None)"
proof (induction G rule: rev_induct)
  case Nil
  then show ?case by (simp add: init_item_def map_of_obj_define)
next
  case (snoc g G)
  have "init_item x (G @ [g]) xv = obj_assign (key_of g) (Num (Fin 0)) (init_item x G xv)"
    by (simp add: init_item_def)
  with snoc show ?case by (auto simp: map_of_obj_assign)
qed

lemma init_grouped_snoc:
  "init_grouped x G (X @ [xv]) = obj_assign (key_of xv) (init_item x G xv) (init_grouped x G X)"
  by (simp add: init_grouped_def)

lemma distinct_init_grouped: "distinct (map fst (init_grouped x G X))"
  by (induction X rule: rev_induct)
     (simp_all add: init_grouped_snoc distinct_obj_assign, simp add: init_grouped_def)

lemma map_of_init_grouped:
  "map_of (init_grouped x G X) xk = Some item \<Longrightarrow>
     \<exists>xv\<in>set X. key_of xv = xk \<and> item = init_item x G xv"
proof (induction X arbitrary: item rule: rev_induct)
  case Nil
  then show ?case by (simp add: init_grouped_def)
next
  case (snoc xv X)
  then show ?case
    by (auto simp: init_grouped_snoc map_of_obj_assign split: if_splits)
qed

lemma map_of_accumulate_average:
  assumes "gk \<noteq> ''__proto__''"
  shows "map_of (accumulate ''average'' gk yv item) =
     (if val_truthy (obj_read item (gk @ ''_count''))
      then (map_of item)(gk \<mapsto> js_plus (obj_read item gk) yv,
                         gk @ ''_count'' \<mapsto> js_plus (obj_read item (gk @ ''_count'')) (Fin 1))
      else (map_of item)(gk \<mapsto> Num (js_add (Fin 0) yv), gk @ ''_count'' \<mapsto> Num (Fin 1)))"
  using assms
  by (auto simp: accumulate_def Let_def map_of_obj_assign obj_read_def count_key_not_proto
      num_of_rat_small)


lemma cell_rows_snoc:
  "cell_rows (rs @ [r]) x groupBy xk g =
     (if key_of (cell r x) = xk \<and> key_of (cell r groupBy) = g
      then cell_rows rs x groupBy xk g @ [r] else cell_rows rs x groupBy xk g)"
  by (simp add: cell_rows_def)

lemma cell_sum_snoc: "cell_sum y (rs @ [r]) = js_add (cell_sum y rs) (coerce r y)"
  by (simp add: cell_sum_def)

lemma cell_sum_Nil: "cell_sum y [] = Fin 0"
  by (simp add: cell_sum_def)

lemma avg_inv_step_same:
  assumes nc: "\<forall>g\<in>GK. g \<noteq> x \<and> g @ ''_count'' \<noteq> x \<and> g \<noteq> ''__proto__''
                 \<and> (\<forall>g'\<in>GK. g' \<noteq> g @ ''_count'')"
    and gk: "key_of (cell r groupBy) \<in> GK"
    and xk: "key_of (cell r x) = xk"
    and inv: "avg_inv x y groupBy GK rs xk item"
  shows "avg_inv x y groupBy GK (rs @ [r]) xk
           (accumulate ''average'' (key_of (cell r groupBy)) (coerce r y) item)"
proof -
  define g0 where "g0 = key_of (cell r groupBy)"
  define item' where "item' = accumulate ''average'' g0 (coerce r y) item"
  from nc gk have g0: "g0 \<noteq> x" "g0 @ ''_count'' \<noteq> x" "g0 \<noteq> ''__proto__''" "g0 \<in> GK"
    by (auto simp: g0_def)
  from inv g0(4) have sum0: "map_of item g0 = Some (Num (cell_sum y (cell_rows rs x groupBy xk g0)))"
    and cnt0: "map_of item (g0 @ ''_count'') =
              (if cell_rows rs x groupBy xk g0 = [] then None
               else Some (Num (js_of_nat (length (cell_rows rs x groupBy xk g0)))))"
    by (auto simp: avg_inv_def)
  have truthy: "val_truthy (obj_read item (g0 @ ''_count'')) \<longleftrightarrow> cell_rows rs x groupBy xk g0 \<noteq> []"
    by (simp add: obj_read_def cnt0 num_truthy_js_of_nat)
  have m': "map_of item' =
     (map_of item)(g0 \<mapsto> Num (cell_sum y (cell_rows rs x groupBy xk g0 @ [r])),
                   g0 @ ''_count'' \<mapsto> Num (js_of_nat (length (cell_rows rs x groupBy xk g0 @ [r]))))"
  proof (cases "cell_rows rs x groupBy xk g0 = []")
    case True
    then show ?thesis
      unfolding item'_def map_of_accumulate_average [OF g0(3)] truthy
      by (simp add: cell_sum_def js_of_nat_1)
  next
    case False
    then show ?thesis
      unfolding item'_def map_of_accumulate_average [OF g0(3)] truthy
      by (simp add: obj_read_def sum0 cnt0 cell_sum_snoc js_of_nat_Suc)
  qed
  have groups: "map_of item' g = Some (Num (cell_sum y (cell_rows (rs @ [r]) x groupBy xk g)))
          \<and> map_of item' (g @ ''_count'') =
              (if cell_rows (rs @ [r]) x groupBy xk g = [] then None
               else Some (Num (js_of_nat (length (cell_rows (rs @ [r]) x groupBy xk g)))))"
    if g: "g \<in> GK" for g
  proof (cases "g = g0")
    case True
    then show ?thesis
      using xk by (simp add: m' cell_rows_snoc g0_def [symmetric])
  next
    case False
    from nc g g0(4) have "g \<noteq> g0 @ ''_count''" "g @ ''_count'' \<noteq> g0" by auto
    with False inv g show ?thesis
      by (simp add: m' cell_rows_snoc g0_def [symmetric] avg_inv_def)
  qed
  from inv obtain xv where "key_of xv = xk" "map_of item x = Some (cell_val xv)"
    by (auto simp: avg_inv_def)
  with g0 have "\<exists>xv. key_of xv = xk \<and> map_of item' x = Some (cell_val xv)"
    by (auto simp: m')
  with groups show ?thesis
    unfolding avg_inv_def item'_def g0_def by blast
qed

lemma avg_inv_step_other:
  "key_of (cell r x) \<noteq> xk \<Longrightarrow> avg_inv x y groupBy GK rs xk item
     \<Longrightarrow> avg_inv x y groupBy GK (rs @ [r]) xk item"
  by (simp add: avg_inv_def cell_rows_snoc)

lemma grouped_fold_inv:
  assumes nc: "\<forall>g\<in>GK. g \<noteq> x \<and> g @ ''_count'' \<noteq> x \<and> g \<noteq> ''__proto__''
                 \<and> (\<forall>g'\<in>GK. g' \<noteq> g @ ''_count'')"
    and rs: "\<forall>r\<in>set rs. key_of (cell r groupBy) \<in> GK"
    and init: "\<And>xk item. map_of gd0 xk = Some item \<Longrightarrow> avg_inv x y groupBy GK [] xk item"
  shows "map fst (foldl (grouped_step x y groupBy ''average'') gd0 rs) = map fst gd0
       \<and> (\<forall>xk item. map_of (foldl (grouped_step x y groupBy ''average'') gd0 rs) xk = Some item
            \<longrightarrow> avg_inv x y groupBy GK rs xk item)"
  using rs
proof (induction rs rule: rev_induct)
  case Nil
  then show ?case using init by simp
next
  case (snoc r rs)
  define gd where "gd = foldl (grouped_step x y groupBy ''average'') gd0 rs"
  from snoc have keys: "map fst gd = map fst gd0"
    and inv: "\<And>xk item. map_of gd xk = Some item \<Longrightarrow> avg_inv x y groupBy GK rs xk item"
    and gk: "key_of (cell r groupBy) \<in> GK"
    by (auto simp: gd_def)
  have step: "foldl (grouped_step x y groupBy ''average'') gd0 (rs @ [r])
      = grouped_step x y groupBy ''average'' gd r"
    by (simp add: gd_def)
  show ?case
  proof (cases "map_of gd (key_of (cell r x))")
    case None
    then have same: "grouped_step x y groupBy ''average'' gd r = gd"
      by (simp add: grouped_step_def)
    have "avg_inv x y groupBy GK (rs @ [r]) xk item" if "map_of gd xk = Some item" for xk item
    proof -
      from that None have "key_of (cell r x) \<noteq> xk" by auto
      with inv [OF that] show ?thesis by (simp add: avg_inv_step_other)
    qed
    with keys show ?thesis unfolding step same by blast
  next
    case (Some item0)
    then have upd: "grouped_step x y groupBy ''average'' gd r
        = AList.update (key_of (cell r x))
            (accumulate ''average'' (key_of (cell r groupBy)) (coerce r y) item0) gd"
      by (simp add: grouped_step_def)
    from Some have "key_of (cell r x) \<in> set (map fst gd)"
      by (metis map_of_eq_None_iff option.distinct(1) set_map)
    then have keys': "map fst (grouped_step x y groupBy ''average'' gd r) = map fst gd0"
      unfolding upd by (simp add: update_keys keys)
    have "avg_inv x y groupBy GK (rs @ [r]) xk item"
      if "map_of (grouped_step x y groupBy ''average'' gd r) xk = Some item" for xk item
    proof (cases "key_of (cell r x) = xk")
      case True
      with that have "item = accumulate ''average'' (key_of (cell r groupBy)) (coerce r y) item0"
        unfolding upd by (simp add: update_conv')
      moreover from True Some have "avg_inv x y groupBy GK rs xk item0"
        by (auto intro: inv)
      ultimately show ?thesis
        using avg_inv_step_same [OF nc gk True] by simp
    next
      case False
      with that have "map_of gd xk = Some item"
        unfolding upd by (simp add: update_conv')
      from False inv [OF this] show ?thesis by (rule avg_inv_step_other)
    qed
    with keys' show ?thesis unfolding step by blast
  qed
qed


lemma js_div_one: "js_div (js_div a b) (Fin 1) = js_div a b"
proof -
  have "js_div (num_of_rat q) (Fin 1) = num_of_rat q" for q
    by (simp add: num_of_rat_def)
  moreover have "js_div (Fin 0) (Fin 1) = Fin 0"
    by (simp add: num_of_rat_small)
  ultimately show ?thesis
    by (cases a; cases b) simp_all
qed

lemma cell_quotient_div_one: "js_div (cell_quotient y rs) (Fin 1) = cell_quotient y rs"
  by (simp add: cell_quotient_def js_div_one num_of_rat_small del: js_div.simps)
     (simp add: num_of_rat_small)

lemma map_of_average_group:
  assumes "key_of g \<noteq> ''__proto__''"
  shows "map_of (average_group item g) =
     ((map_of item)
        (key_of g \<mapsto>
           Num (js_div (val_to_num (obj_read item (key_of g)))
                  (val_to_num (if val_truthy (obj_read item (key_of g @ ''_count''))
                               then obj_read item (key_of g @ ''_count'') else Num (Fin 1))))))
     (key_of g @ ''_count'' := None)"
  using assms by (simp add: average_group_def Let_def map_of_obj_delete map_of_obj_assign)

lemma avg_done_step:
  assumes nc: "\<forall>g\<in>GK. g \<noteq> x \<and> g @ ''_count'' \<noteq> x \<and> g \<noteq> ''__proto__''
                 \<and> (\<forall>g'\<in>GK. g' \<noteq> g @ ''_count'')"
    and g0: "key_of g0 \<in> GK"
    and inv: "avg_done x y groupBy GK P rs xk item"
  shows "avg_done x y groupBy GK (insert (key_of g0) P) rs xk (average_group item g0)"
proof -
  define k0 where "k0 = key_of g0"
  define item' where "item' = average_group item g0"
  from nc g0 have k0: "k0 \<noteq> x" "k0 @ ''_count'' \<noteq> x" "k0 \<noteq> ''__proto__''" "k0 \<in> GK"
    by (auto simp: k0_def)
  have field: "map_of item' k0 = Some (Num (cell_quotient y (cell_rows rs x groupBy xk k0)))"
  proof (cases "k0 \<in> P")
    case True
    with inv k0(4) have "map_of item k0 = Some (Num (cell_quotient y (cell_rows rs x groupBy xk k0)))"
      and "map_of item (k0 @ ''_count'') = None"
      by (auto simp: avg_done_def)
    then show ?thesis
      unfolding item'_def map_of_average_group [OF k0(3) [unfolded k0_def]] k0_def [symmetric]
      by (simp add: obj_read_def cell_quotient_div_one del: js_div.simps)
  next
    case False
    with inv k0(4) have s: "map_of item k0 = Some (Num (cell_sum y (cell_rows rs x groupBy xk k0)))"
      and c: "map_of item (k0 @ ''_count'') =
                   (if cell_rows rs x groupBy xk k0 = [] then None
                    else Some (Num (js_of_nat (length (cell_rows rs x groupBy xk k0)))))"
      by (auto simp: avg_done_def)
    show ?thesis
      unfolding item'_def map_of_average_group [OF k0(3) [unfolded k0_def]] k0_def [symmetric]
      by (simp add: obj_read_def s c cell_quotient_def cell_sum_Nil num_truthy_js_of_nat
          num_of_rat_small)
  qed
  have counter: "map_of item' (k0 @ ''_count'') = None"
    unfolding item'_def map_of_average_group [OF k0(3) [unfolded k0_def]] k0_def [symmetric]
    by simp
  have other: "map_of item' k = map_of item k" if "k \<noteq> k0" "k \<noteq> k0 @ ''_count''" for k
    unfolding item'_def map_of_average_group [OF k0(3) [unfolded k0_def]] k0_def [symmetric]
    using that by simp
  have groups: "if g \<in> insert k0 P
          then map_of item' g = Some (Num (cell_quotient y (cell_rows rs x groupBy xk g)))
               \<and> map_of item' (g @ ''_count'') = None
          else map_of item' g = Some (Num (cell_sum y (cell_rows rs x groupBy xk g)))
               \<and> map_of item' (g @ ''_count'') =
                   (if cell_rows rs x groupBy xk g = [] then None
                    else Some (Num (js_of_nat (length (cell_rows rs x groupBy xk g)))))"
    if g: "g \<in> GK" for g
  proof (cases "g = k0")
    case True
    with field counter show ?thesis by simp
  next
    case False
    from nc g k0(4) have "g \<noteq> k0 @ ''_count''" "g @ ''_count'' \<noteq> k0" by auto
    with False have "map_of item' g = map_of item g"
      and "map_of item' (g @ ''_count'') = map_of item (g @ ''_count'')"
      by (simp_all add: other)
    with False inv g show ?thesis
      by (auto simp: avg_done_def)
  qed
  from inv k0 have "\<exists>xv. key_of xv = xk \<and> map_of item' x = Some (cell_val xv)"
    by (simp add: other avg_done_def)
  with groups show ?thesis
    unfolding avg_done_def item'_def k0_def by blast
qed

lemma avg_done_fold:
  assumes nc: "\<forall>g\<in>GK. g \<noteq> x \<and> g @ ''_count'' \<noteq> x \<and> g \<noteq> ''__proto__''
                 \<and> (\<forall>g'\<in>GK. g' \<noteq> g @ ''_count'')"
  shows "key_of ` set Gs \<subseteq> GK \<Longrightarrow> avg_done x y groupBy GK P rs xk item
     \<Longrightarrow> avg_done x y groupBy GK (P \<union> key_of ` set Gs) rs xk (foldl average_group item Gs)"
proof (induction Gs arbitrary: P item)
  case Nil
  then show ?case by simp
next
  case (Cons g Gs)
  from Cons.prems have "avg_done x y groupBy GK (insert (key_of g) P) rs xk (average_group item g)"
    by (intro avg_done_step [OF nc]) auto
  with Cons.prems(1) have "avg_done x y groupBy GK (insert (key_of g) P \<union> key_of ` set Gs) rs xk
      (foldl average_group (average_group item g) Gs)"
    by (intro Cons.IH) auto
  then show ?case by simp
qed

lemma set_js_Set: "set (js_Set xs) = set xs"
  by (simp add: js_Set_def)

lemma no_collision_keys:
  "no_collision rows x groupBy \<Longrightarrow>
     \<forall>g\<in>set (group_keys rows groupBy). g \<noteq> x \<and> g @ ''_count'' \<noteq> x \<and> g \<noteq> ''__proto__''
        \<and> (\<forall>g'\<in>set (group_keys rows groupBy). g' \<noteq> g @ ''_count'')"
  by (simp add: no_collision_def list_all_iff)

text \<open>
  Every record of \<open>groupedData\<close> under the average transform, when no keys collide: its
  group fields hold the quotients, its counters are gone, and its x field holds a value
  of the record's key.
\<close>

lemma groupedData_average:
  assumes nc: "no_collision rows x groupBy"
    and rec: "(xk, item) \<in> set (groupedData rows x y groupBy ''average'')"
  shows "avg_done x y groupBy (set (group_keys rows groupBy)) (set (group_keys rows groupBy))
           rows xk item"
proof -
  define GK where "GK = set (group_keys rows groupBy)"
  define G where "G = js_Set (map (\<lambda>r. cell r groupBy) rows)"
  define X where "X = js_sort_default (js_Set (map (\<lambda>r. cell r x) rows))"
  define gd0 where "gd0 = init_grouped x G X"
  define gd1 where "gd1 = foldl (grouped_step x y groupBy ''average'') gd0 rows"
  note nck = no_collision_keys [OF nc, folded GK_def]
  have GK: "key_of ` set G = GK"
    by (simp add: G_def GK_def group_keys_def set_js_Set image_image)
  have init: "avg_inv x y groupBy GK [] k it" if "map_of gd0 k = Some it" for k it
  proof -
    from that obtain xv where xv: "key_of xv = k" "it = init_item x G xv"
      unfolding gd0_def by (auto dest: map_of_init_grouped)
    have "map_of it g = Some (Num (Fin 0)) \<and> map_of it (g @ ''_count'') = None" if "g \<in> GK" for g
      using that nck by (auto simp: xv map_of_init_item GK)
    moreover have "map_of it x = Some (cell_val xv)"
      using nck by (auto simp: xv map_of_init_item GK)
    ultimately show ?thesis
      using xv(1) by (auto simp: avg_inv_def cell_rows_def cell_sum_Nil)
  qed
  have rows_in: "\<forall>r\<in>set rows. key_of (cell r groupBy) \<in> GK"
    by (simp add: GK_def group_keys_def)
  have fold: "map fst gd1 = map fst gd0
       \<and> (\<forall>xk item. map_of gd1 xk = Some item \<longrightarrow> avg_inv x y groupBy GK rows xk item)"
    unfolding gd1_def by (rule grouped_fold_inv [OF nck rows_in]) (rule init)
  have dist: "distinct (map fst gd1)"
    using fold distinct_init_grouped [of x G X] by (simp add: gd0_def)
  have gd: "groupedData rows x y groupBy ''average''
      = map (\<lambda>p. (fst p, average_item G (snd p))) gd1"
    by (simp add: groupedData_def Let_def gd1_def gd0_def G_def X_def)
  from rec obtain it where it: "(xk, it) \<in> set gd1" "item = average_item G it"
    unfolding gd by auto
  with dist have "map_of gd1 xk = Some it" by simp
  with fold have "avg_inv x y groupBy GK rows xk it" by blast
  then have "avg_done x y groupBy GK {} rows xk it"
    by (simp add: avg_inv_def avg_done_def)
  from avg_done_fold [OF nck _ this, of G] have "avg_done x y groupBy GK GK rows xk item"
    by (simp add: GK it(2) average_item_def)
  then show ?thesis by (simp add: GK_def)
qed

subsection \<open>The records and their order\<close>

lemma grouped_step_keys: "map fst (grouped_step x y groupBy t gd r) = map fst gd"
proof (cases "map_of gd (key_of (cell r x))")
  case None
  then show ?thesis by (simp add: grouped_step_def)
next
  case (Some item)
  then have "key_of (cell r x) \<in> set (map fst gd)"
    by (metis map_of_eq_None_iff option.distinct(1) set_map)
  with Some show ?thesis by (simp add: grouped_step_def update_keys)
qed

lemma grouped_fold_keys: "map fst (foldl (grouped_step x y groupBy t) gd rs) = map fst gd"
  by (induction rs rule: rev_induct) (simp_all add: grouped_step_keys)

lemma groupedData_keys:
  "map fst (groupedData rows x y groupBy t) =
     map fst (init_grouped x (js_Set (map (\<lambda>r. cell r groupBy) rows))
                (js_sort_default (js_Set (map (\<lambda>r. cell r x) rows))))"
  by (simp add: groupedData_def Let_def grouped_fold_keys comp_def)

lemma keys_obj_assign:
  "fst ` set (obj_assign k v ob) = (if k = ''__proto__'' then fst ` set ob else insert k (fst ` set ob))"
proof -
  have "dom (map_of (obj_define k v ob)) = insert k (dom (map_of ob))"
    by (simp add: map_of_obj_define)
  then have "fst ` set (obj_define k v ob) = insert k (fst ` set ob)"
    by (simp add: dom_map_of_conv_image_fst)
  then show ?thesis by (simp add: obj_assign_def)
qed

lemma set_map_filter_id: "set (List.map_filter id vs) = {s. Some s \<in> set vs}"
  by (induction vs) (auto simp: List.map_filter_simps split: option.splits)

lemma keys_init_grouped:
  "fst ` set (init_grouped x G X) = key_of ` set X - {''__proto__''}"
  by (induction X rule: rev_induct)
     (auto simp: init_grouped_snoc keys_obj_assign, simp add: init_grouped_def)

lemma set_js_sort_default: "set (js_sort_default vs) = set vs"
proof -
  have "set (map Some (sort (List.map_filter id vs))) = {v \<in> set vs. v \<noteq> None}"
    by (auto simp: set_map_filter_id)
  then show ?thesis
    by (auto simp: js_sort_default_def)
qed

text \<open>
  For every transform the output has one record per distinct x key (the text of the x
  value), the key \<open>__proto__\<close> aside.
\<close>

lemma grouped_record_count:
  "length (prepareGroupedData rows x y groupBy t)
     = card (set (map (\<lambda>r. key_of (cell r x)) rows) - {''__proto__''})"
proof -
  define X where "X = js_sort_default (js_Set (map (\<lambda>r. cell r x) rows))"
  define G where "G = js_Set (map (\<lambda>r. cell r groupBy) rows)"
  have "length (prepareGroupedData rows x y groupBy t) = length (map fst (init_grouped x G X))"
    using groupedData_keys [of rows x y groupBy t]
    by (metis G_def X_def Object_values_def length_map prepareGroupedData_def)
  also have "\<dots> = card (set (map fst (init_grouped x G X)))"
    using distinct_card [OF distinct_init_grouped [of x G X]] by simp
  also have "set (map fst (init_grouped x G X)) = key_of ` set X - {''__proto__''}"
    by (simp add: keys_init_grouped)
  also have "set X = set (map (\<lambda>r. cell r x) rows)"
    by (simp add: X_def set_js_sort_default set_js_Set)
  finally show ?thesis by (simp add: image_image)
qed

lemma obj_insert_new_append: "\<not> is_index k \<Longrightarrow> obj_insert_new k v ob = ob @ [(k, v)]"
  by (induction ob) (simp_all add: key_before_def)

lemma init_grouped_plain_keys:
  assumes "distinct (map key_of X)"
    and "\<forall>xv\<in>set X. \<not> is_index (key_of xv) \<and> key_of xv \<noteq> ''__proto__''"
  shows "map fst (init_grouped x G X) = map key_of X"
  using assms
proof (induction X rule: rev_induct)
  case Nil
  then show ?case by (simp add: init_grouped_def)
next
  case (snoc xv X)
  then have keys: "map fst (init_grouped x G X) = map key_of X"
    and new: "key_of xv \<notin> set (map key_of X)"
    and plain: "\<not> is_index (key_of xv)" "key_of xv \<noteq> ''__proto__''"
    by auto
  from new keys have "map_of (init_grouped x G X) (key_of xv) = None"
    by (metis map_of_eq_None_iff set_map)
  with plain have "init_grouped x G (X @ [xv]) = init_grouped x G X @ [(key_of xv, init_item x G xv)]"
    by (simp add: init_grouped_snoc obj_assign_def obj_define_def obj_insert_new_append)
  with keys show ?case by simp
qed

text \<open>
  When every row has an x cell and no x value is an array index or \<open>__proto__\<close>, the
  records stand in the lexicographic order of their x values, one per distinct value.
\<close>

lemma grouped_order_without_index_keys:
  assumes "\<forall>r\<in>set rows. \<exists>s. cell r x = Some s \<and> \<not> is_index s \<and> s \<noteq> ''__proto__''"
  shows "map fst (groupedData rows x y groupBy t) = sort (remdups (map (\<lambda>r. key_of (cell r x)) rows))"
proof -
  define cs where "cs = js_Set (map (\<lambda>r. cell r x) rows)"
  define X where "X = js_sort_default cs"
  from assms have some: "\<forall>c\<in>set cs. \<exists>s. c = Some s \<and> \<not> is_index s \<and> s \<noteq> ''__proto__''"
    by (auto simp: cs_def set_js_Set)
  then have no_none: "filter (\<lambda>v. v = None) cs = []"
    by (auto simp: filter_empty_conv)
  have X: "X = map Some (sort (List.map_filter id cs))"
    by (simp add: X_def js_sort_default_def no_none)
  have keys: "map key_of X = sort (List.map_filter id cs)"
    by (simp add: X key_of_def comp_def)
  have "distinct cs"
    by (simp add: cs_def js_Set_def)
  then have dist: "distinct (List.map_filter id cs)"
    by (auto simp: List.map_filter_def distinct_map inj_on_def)
  have set_eq: "set (List.map_filter id cs) = set (map (\<lambda>r. key_of (cell r x)) rows)"
  proof -
    have "set (List.map_filter id cs) = {s. Some s \<in> set cs}"
      by (rule set_map_filter_id)
    also have "\<dots> = set (map (\<lambda>r. key_of (cell r x)) rows)"
      using assms by (force simp: cs_def set_js_Set key_of_def)
    finally show ?thesis .
  qed
  have "sort (List.map_filter id cs) = sort (remdups (map (\<lambda>r. key_of (cell r x)) rows))"
    by (rule sorted_distinct_set_unique) (simp_all add: dist set_eq)
  moreover have "map fst (init_grouped x G X) = map key_of X" for G
  proof (rule init_grouped_plain_keys)
    show "distinct (map key_of X)" by (simp add: keys dist)
    show "\<forall>xv\<in>set X. \<not> is_index (key_of xv) \<and> key_of xv \<noteq> ''__proto__''"
      using some by (auto simp: X_def set_js_sort_default key_of_def)
  qed
  ultimately show ?thesis
    by (simp add: groupedData_keys cs_def [symmetric] X_def [symmetric] keys)
qed

subsection \<open>The cells under the average transform\<close>

lemma val_text_cell_val: "val_text (cell_val xv) = key_of xv"
  by (cases xv) (simp_all add: cell_val_def key_of_def)

lemma one_entry_per_key:
  assumes "distinct (map fst ps)" and "k \<in> fst ` set ps"
  shows "length (filter (\<lambda>p. fst p = k) ps) = 1"
proof -
  have "length (filter (\<lambda>p. fst p = k) ps) = length (filter (\<lambda>k'. k' = k) (map fst ps))"
    by (simp add: filter_map comp_def)
  also have "\<dots> = card ({k'. k' = k} \<inter> set (map fst ps))"
    using assms(1) by (rule distinct_length_filter)
  also from assms(2) have "{k'. k' = k} \<inter> set (map fst ps) = {k}"
    by auto
  finally show ?thesis by simp
qed

text \<open>
  The keys of \<open>groupedData\<close> are the x keys of the rows, \<open>__proto__\<close> aside, each once.
\<close>

lemma groupedData_key_set:
  "fst ` set (groupedData rows x y groupBy t) = set (x_keys rows x) - {''__proto__''}"
proof -
  have "fst ` set (groupedData rows x y groupBy t) = set (map fst (groupedData rows x y groupBy t))"
    by simp
  also have "\<dots> = key_of ` set (js_sort_default (js_Set (map (\<lambda>r. cell r x) rows))) - {''__proto__''}"
    unfolding groupedData_keys by (simp add: keys_init_grouped)
  also have "\<dots> = set (x_keys rows x) - {''__proto__''}"
    by (simp add: set_js_sort_default set_js_Set x_keys_def image_image)
  finally show ?thesis .
qed

lemma distinct_groupedData: "distinct (map fst (groupedData rows x y groupBy t))"
  unfolding groupedData_keys by (rule distinct_init_grouped)

text \<open>
  An x value \<open>__proto__\<close> has no record: the assignment \<open>groupedData[xVal] = ...\<close> sets the
  prototype of \<open>groupedData\<close> and creates no property, so the rows of that x value reach
  no record of the output.
\<close>

lemma grouped_proto_x_key:
  "prepareGroupedData
     [[(''m'', ''__proto__''), (''r'', ''a''), (''s'', ''4'')],
      [(''m'', ''k''), (''r'', ''a''), (''s'', ''2'')]] ''m'' ''s'' ''r'' ''average''
     = [[(''m'', Str ''k''), (''a'', Num (Fin 2))]]"
  by code_simp

text \<open>
  C3, as the code has it. A cell is an x key and a group key of the rows, the keys being
  the texts under which the source files the x value and the group value of a row (a
  missing value under \<open>undefined\<close>). Under the average transform, when no keys collide,
  for every cell: the output has exactly one record whose x value has the cell's x key;
  in it the group's field is the sum of the coerced y values of the rows of the cell
  divided by their number when the cell has a row, and 0 when it has none (the division
  then uses the count 1); every record of the output belongs to an x key of the rows,
  and none has the counter field of the group.
\<close>

theorem grouped_average_cells:
  assumes "no_collision rows x groupBy"
    and "xk \<in> set (x_keys rows x)"
    and "g \<in> set (group_keys rows groupBy)"
  shows "length (filter (\<lambda>item. val_text (obj_read item x) = xk)
                   (prepareGroupedData rows x y groupBy ''average'')) = 1
       \<and> (\<forall>item\<in>set (prepareGroupedData rows x y groupBy ''average'').
             val_text (obj_read item x) = xk \<longrightarrow>
               obj_read item g =
                 Num (if cell_rows rows x groupBy xk g = [] then Fin 0
                      else js_div (cell_sum y (cell_rows rows x groupBy xk g))
                             (js_of_nat (length (cell_rows rows x groupBy xk g)))))
       \<and> (\<forall>item\<in>set (prepareGroupedData rows x y groupBy ''average'').
             val_text (obj_read item x) \<in> set (x_keys rows x)
             \<and> map_of item (g @ ''_count'') = None)"
proof -
  define gd where "gd = groupedData rows x y groupBy ''average''"
  have out: "prepareGroupedData rows x y groupBy ''average'' = map snd gd"
    by (simp add: prepareGroupedData_def Object_values_def gd_def)
  from assms(1) have no_proto: "''__proto__'' \<notin> set (x_keys rows x)"
    by (auto simp: no_collision_def list_all_iff)
  have keys: "fst ` set gd = set (x_keys rows x)"
    unfolding gd_def groupedData_key_set using no_proto by simp
  have dist: "distinct (map fst gd)"
    unfolding gd_def by (rule distinct_groupedData)
  have avg: "avg_done x y groupBy (set (group_keys rows groupBy)) (set (group_keys rows groupBy))
           rows (fst p) (snd p)" if "p \<in> set gd" for p
    using that groupedData_average [OF assms(1), of "fst p" "snd p" y] by (simp add: gd_def)
  have key: "val_text (obj_read (snd p) x) = fst p" if "p \<in> set gd" for p
  proof -
    from avg [OF that] obtain xv where "key_of xv = fst p" "map_of (snd p) x = Some (cell_val xv)"
      by (auto simp: avg_done_def)
    then show ?thesis by (simp add: obj_read_def val_text_cell_val)
  qed
  have "filter (\<lambda>item. val_text (obj_read item x) = xk) (map snd gd)
      = map snd (filter (\<lambda>p. fst p = xk) gd)"
    unfolding filter_map comp_def
    by (rule arg_cong [where f = "map snd"], rule filter_cong) (simp_all add: key)
  moreover from assms(2) keys have "length (filter (\<lambda>p. fst p = xk) gd) = 1"
    by (intro one_entry_per_key dist) simp
  ultimately have one: "length (filter (\<lambda>item. val_text (obj_read item x) = xk)
                   (prepareGroupedData rows x y groupBy ''average'')) = 1"
    by (simp add: out)
  have cell: "obj_read (snd p) g =
                 Num (if cell_rows rows x groupBy xk g = [] then Fin 0
                      else js_div (cell_sum y (cell_rows rows x groupBy xk g))
                             (js_of_nat (length (cell_rows rows x groupBy xk g))))"
    if p: "p \<in> set gd" and xk: "val_text (obj_read (snd p) x) = xk" for p
  proof -
    from key [OF p] xk have "fst p = xk" by simp
    with avg [OF p] assms(3)
    have "map_of (snd p) g = Some (Num (cell_quotient y (cell_rows rows x groupBy xk g)))"
      by (auto simp: avg_done_def)
    then show ?thesis by (simp add: obj_read_def cell_quotient_def)
  qed
  have rest: "val_text (obj_read (snd p) x) \<in> set (x_keys rows x)
             \<and> map_of (snd p) (g @ ''_count'') = None" if p: "p \<in> set gd" for p
  proof -
    from p keys have "fst p \<in> set (x_keys rows x)" by auto
    moreover from avg [OF p] assms(3) have "map_of (snd p) (g @ ''_count'') = None"
      by (auto simp: avg_done_def)
    ultimately show ?thesis by (simp add: key [OF p])
  qed
  from one cell rest show ?thesis
    unfolding out by auto
qed

theorem grouped_average_cells_witness:
  "prepareGroupedData
     [[(''region'', ''east''), (''month'', ''Jan''), (''sales'', ''10'')],
      [(''region'', ''east''), (''month'', ''Feb''), (''sales'', ''20'')],
      [(''region'', ''west''), (''month'', ''Jan''), (''sales'', ''5'')],
      [(''region'', ''east''), (''month'', ''Jan''), (''sales'', ''30'')]] ''month'' ''sales'' ''region'' ''average''
     = [[(''month'', Str ''Feb''), (''east'', Num (Fin 20)), (''west'', Num (Fin 0))],
        [(''month'', Str ''Jan''), (''east'', Num (Fin 20)), (''west'', Num (Fin 5))]]
   \<and> cell_rows
     [[(''region'', ''east''), (''month'', ''Jan''), (''sales'', ''10'')],
      [(''region'', ''east''), (''month'', ''Feb''), (''sales'', ''20'')],
      [(''region'', ''west''), (''month'', ''Jan''), (''sales'', ''5'')],
      [(''region'', ''east''), (''month'', ''Jan''), (''sales'', ''30'')]] ''month'' ''region'' ''Jan'' ''east''
     = [[(''region'', ''east''), (''month'', ''Jan''), (''sales'', ''10'')],
        [(''region'', ''east''), (''month'', ''Jan''), (''sales'', ''30'')]]
   \<and> obj_read [(''month'', Str ''Jan''), (''east'', Num (Fin 20)), (''west'', Num (Fin 5))] ''east''
     = Num (js_div (Fin 40) (js_of_nat 2))
   \<and> map_of [(''month'', Str ''Jan''), (''east'', Num (Fin 20)), (''west'', Num (Fin 5))]
       ''east_count'' = None"
proof -
  define rows where "rows =
     [[(''region'', ''east''), (''month'', ''Jan''), (''sales'', ''10'')],
      [(''region'', ''east''), (''month'', ''Feb''), (''sales'', ''20'')],
      [(''region'', ''west''), (''month'', ''Jan''), (''sales'', ''5'')],
      [(''region'', ''east''), (''month'', ''Jan''), (''sales'', ''30'')]]"
  define item where "item = [(''month'', Str ''Jan''), (''east'', Num (Fin 20)), (''west'', Num (Fin 5))]"
  have nc: "no_collision rows ''month'' ''region''"
    unfolding rows_def by code_simp
  have out: "prepareGroupedData rows ''month'' ''sales'' ''region'' ''average''
     = [[(''month'', Str ''Feb''), (''east'', Num (Fin 20)), (''west'', Num (Fin 0))], item]"
    unfolding rows_def item_def by code_simp
  then have mem: "item \<in> set (prepareGroupedData rows ''month'' ''sales'' ''region'' ''average'')"
    by simp
  have k: "''Jan'' \<in> set (x_keys rows ''month'')"
    unfolding rows_def by code_simp
  have g: "''east'' \<in> set (group_keys rows ''region'')"
    unfolding rows_def by code_simp
  have xk: "val_text (obj_read item ''month'') = ''Jan''"
    unfolding item_def by code_simp
  have cr: "cell_rows rows ''month'' ''region'' ''Jan'' ''east''
     = [[(''region'', ''east''), (''month'', ''Jan''), (''sales'', ''10'')],
        [(''region'', ''east''), (''month'', ''Jan''), (''sales'', ''30'')]]"
    unfolding rows_def by code_simp
  have cs: "cell_sum ''sales'' [[(''region'', ''east''), (''month'', ''Jan''), (''sales'', ''10'')],
        [(''region'', ''east''), (''month'', ''Jan''), (''sales'', ''30'')]] = Fin 40"
    by code_simp
  from grouped_average_cells [OF nc k g, of "''sales''"] mem xk
  have "obj_read item ''east'' = Num (js_div (Fin 40) (js_of_nat 2))
      \<and> map_of item (''east'' @ ''_count'') = None"
    unfolding cr cs by (auto simp: numeral_2_eq_2)
  with out cr show ?thesis
    unfolding rows_def item_def by simp
qed

text \<open>
  The claim C3 at a cell with no row: February has no row of the group \<open>west\<close>, the sum
  of no value is 0 and the count is 0, the quotient of the two is NaN, and the record of
  February holds 0.
\<close>

theorem grouped_average_empty_cell:
  "[(''month'', Str ''Feb''), (''east'', Num (Fin 20)), (''west'', Num (Fin 0))]
     \<in> set (prepareGroupedData
     [[(''region'', ''east''), (''month'', ''Jan''), (''sales'', ''10'')],
      [(''region'', ''east''), (''month'', ''Feb''), (''sales'', ''20'')],
      [(''region'', ''west''), (''month'', ''Jan''), (''sales'', ''5'')],
      [(''region'', ''east''), (''month'', ''Jan''), (''sales'', ''30'')]] ''month'' ''sales'' ''region'' ''average'')
   \<and> obj_read [(''month'', Str ''Feb''), (''east'', Num (Fin 20)), (''west'', Num (Fin 0))] ''west''
     \<noteq> Num (js_div
          (cell_sum ''sales'' (cell_rows
     [[(''region'', ''east''), (''month'', ''Jan''), (''sales'', ''10'')],
      [(''region'', ''east''), (''month'', ''Feb''), (''sales'', ''20'')],
      [(''region'', ''west''), (''month'', ''Jan''), (''sales'', ''5'')],
      [(''region'', ''east''), (''month'', ''Jan''), (''sales'', ''30'')]] ''month'' ''region'' ''Feb'' ''west''))
          (js_of_nat (length (cell_rows
     [[(''region'', ''east''), (''month'', ''Jan''), (''sales'', ''10'')],
      [(''region'', ''east''), (''month'', ''Feb''), (''sales'', ''20'')],
      [(''region'', ''west''), (''month'', ''Jan''), (''sales'', ''5'')],
      [(''region'', ''east''), (''month'', ''Jan''), (''sales'', ''30'')]] ''month'' ''region'' ''Feb'' ''west''))))"
  by code_simp

text \<open>
  C2. The claim: the records of the grouped output stand in the lexicographic order of
  their x values. The x values \<open>1\<close>, \<open>1.5\<close> and \<open>2\<close> are sorted so and the records are created
  in that order, but \<open>Object.values\<close> enumerates the keys that are array indices first:
  the output order is \<open>1\<close>, \<open>2\<close>, \<open>1.5\<close>. (The number of records is right for every
  transform, \<open>grouped_record_count\<close>, and so is the order when no x value is an array
  index, \<open>grouped_order_without_index_keys\<close>.)
\<close>

theorem grouped_order_of_index_keys:
  "prepareGroupedData
     [[(''m'', ''1''), (''r'', ''a''), (''s'', ''1'')],
      [(''m'', ''1.5''), (''r'', ''a''), (''s'', ''1'')],
      [(''m'', ''2''), (''r'', ''a''), (''s'', ''1'')]] ''m'' ''s'' ''r'' ''sum''
     = [[(''m'', Str ''1''), (''a'', Num (Fin 1))],
        [(''m'', Str ''2''), (''a'', Num (Fin 1))],
        [(''m'', Str ''1.5''), (''a'', Num (Fin 1))]]
   \<and> sort [''1'', ''2'', ''1.5''] = [''1'', ''1.5'', ''2'']"
  by code_simp

text \<open>
  C10. The claim: under the average transform a cell that no row matches is 0 in the
  output, never NaN or missing. With the two group values \<open>A\<close> and \<open>A_count\<close> the counter of
  group \<open>A\<close> is the field of group \<open>A_count\<close>: the post-processing of \<open>A\<close> deletes it, and the
  post-processing of \<open>A_count\<close> then divides \<open>undefined\<close>. The cell of January and
  \<open>A_count\<close> has no row and is NaN.
\<close>

theorem grouped_average_counter_collision:
  "prepareGroupedData
     [[(''m'', ''Jan''), (''r'', ''A''), (''s'', ''5'')],
      [(''m'', ''Feb''), (''r'', ''A_count''), (''s'', ''7'')]] ''m'' ''s'' ''r'' ''average''
     = [[(''m'', Str ''Feb''), (''A'', Num (Fin 0)), (''A_count'', Num NaN)],
        [(''m'', Str ''Jan''), (''A'', Num (Fin 5)), (''A_count'', Num NaN)]]
   \<and> cell_rows
     [[(''m'', ''Jan''), (''r'', ''A''), (''s'', ''5'')],
      [(''m'', ''Feb''), (''r'', ''A_count''), (''s'', ''7'')]] ''m'' ''r'' ''Jan'' ''A_count'' = []"
  by code_simp

section \<open>Pie strategy\<close>

lemma pie_acc_snoc: "pie_acc t (ys @ [v]) = pie_update t v (pie_acc t ys)"
  by (simp add: pie_acc_def)

lemma pie_acc_Nil: "pie_acc t [] = (Fin 0, Fin 0)"
  by (simp add: pie_acc_def)

lemma category_rows_snoc:
  "category_rows (rs @ [r]) x n =
     (if key_of (cell r x) = n then category_rows rs x n @ [r] else category_rows rs x n)"
  by (simp add: category_rows_def)

lemma proto_not_in_names: "n \<notin> set proto_names \<Longrightarrow> n \<noteq> ''__proto__''"
  by (auto simp: proto_names_def)

lemma aggregated_snoc:
  "aggregated (rs @ [r]) x y t = pie_step x y t (aggregated rs x y t) r"
  by (simp add: aggregated_def)

lemma aggregated_inv:
  "distinct (map fst (aggregated rs x y t))
   \<and> (\<forall>n. map_of (aggregated rs x y t) n =
        (if n \<in> set (map (\<lambda>r. key_of (cell r x)) rs) \<and> n \<notin> set proto_names
         then Some (pie_acc t (map (\<lambda>r. coerce r y) (category_rows rs x n))) else None))"
proof (induction rs rule: rev_induct)
  case Nil
  then show ?case by (simp add: aggregated_def)
next
  case (snoc r rs)
  define agg where "agg = aggregated rs x y t"
  define c where "c = key_of (cell r x)"
  from snoc have dist: "distinct (map fst agg)"
    and m: "\<And>n. map_of agg n =
        (if n \<in> set (map (\<lambda>r. key_of (cell r x)) rs) \<and> n \<notin> set proto_names
         then Some (pie_acc t (map (\<lambda>r. coerce r y) (category_rows rs x n))) else None)"
    by (simp_all add: agg_def)
  show ?case
  proof (cases "c \<in> set proto_names")
    case True
    then have "map_of agg c = None" by (simp add: m)
    with True have "pie_step x y t agg r = agg"
      by (simp add: pie_step_def Let_def c_def [symmetric])
    with dist m True show ?thesis
      unfolding aggregated_snoc agg_def [symmetric]
      by (auto simp: category_rows_snoc c_def [symmetric])
  next
    case False
    note c_ok = proto_not_in_names [OF False]
    show ?thesis
    proof (cases "map_of agg c")
      case None
      with False c_ok have step: "pie_step x y t agg r =
          AList.update c (pie_update t (coerce r y) (Fin 0, Fin 0)) (obj_assign c (Fin 0, Fin 0) agg)"
        by (simp add: pie_step_def Let_def c_def [symmetric] map_of_obj_assign)
      from None False have new: "c \<notin> set (map (\<lambda>r. key_of (cell r x)) rs)"
        by (auto simp: m split: if_splits)
      then have empty: "category_rows rs x c = []"
        by (auto simp: category_rows_def filter_empty_conv)
      have "distinct (map fst (pie_step x y t agg r))"
        unfolding step by (simp add: distinct_update distinct_obj_assign dist)
      moreover have "map_of (pie_step x y t agg r) n =
        (if n \<in> set (map (\<lambda>r. key_of (cell r x)) (rs @ [r])) \<and> n \<notin> set proto_names
         then Some (pie_acc t (map (\<lambda>r. coerce r y) (category_rows (rs @ [r]) x n))) else None)" for n
        unfolding step using False c_ok empty
        by (auto simp: update_conv' map_of_obj_assign m category_rows_snoc c_def [symmetric]
            pie_acc_snoc pie_acc_def)
      ultimately show ?thesis
        unfolding aggregated_snoc agg_def [symmetric] by blast
    next
      case (Some acc)
      then have step: "pie_step x y t agg r = AList.update c (pie_update t (coerce r y) acc) agg"
        by (simp add: pie_step_def Let_def c_def [symmetric])
      from Some have acc: "acc = pie_acc t (map (\<lambda>r. coerce r y) (category_rows rs x c))"
        by (auto simp: m split: if_splits)
      have "distinct (map fst (pie_step x y t agg r))"
        unfolding step by (simp add: distinct_update dist)
      moreover have "map_of (pie_step x y t agg r) n =
        (if n \<in> set (map (\<lambda>r. key_of (cell r x)) (rs @ [r])) \<and> n \<notin> set proto_names
         then Some (pie_acc t (map (\<lambda>r. coerce r y) (category_rows (rs @ [r]) x n))) else None)" for n
        unfolding step using False
        by (auto simp: update_conv' m category_rows_snoc c_def [symmetric] pie_acc_snoc acc)
      ultimately show ?thesis
        unfolding aggregated_snoc agg_def [symmetric] by blast
    qed
  qed
qed

lemma pie_acc_parts:
  "fst (pie_acc t ys) = (if t = ''count'' then js_of_nat (length ys) else foldl js_add (Fin 0) ys)
   \<and> snd (pie_acc t ys) = (if t = ''average'' then js_of_nat (length ys) else Fin 0)"
proof (induction ys arbitrary: t rule: rev_induct)
  case Nil
  then show ?case by (simp add: pie_acc_Nil js_of_nat_0)
next
  case (snoc v ys)
  show ?case
    unfolding pie_acc_snoc pie_update_def
    by (simp add: snoc js_of_nat_Suc)
qed

lemma pie_slice_value:
  "snd (pie_slice t (n, pie_acc t ys)) = pie_value t ys"
  by (simp add: pie_slice_def pie_value_def pie_acc_parts)

lemma pie_slices:
  assumes "s \<in> set (preparePieData rows x y t)"
  shows "fst s \<in> set (map (\<lambda>r. key_of (cell r x)) rows) \<and> fst s \<notin> set proto_names
       \<and> snd s = pie_value t (map (\<lambda>r. coerce r y) (category_rows rows x (fst s)))"
proof -
  from assms have "s \<in> pie_slice t ` set (aggregated rows x y t)"
    by (simp add: preparePieData_def set_js_sort_by)
  then obtain n acc where e: "(n, acc) \<in> set (aggregated rows x y t)" and s: "s = pie_slice t (n, acc)"
    by auto
  from aggregated_inv [of rows x y t] have dist: "distinct (map fst (aggregated rows x y t))"
    and m: "map_of (aggregated rows x y t) n =
        (if n \<in> set (map (\<lambda>r. key_of (cell r x)) rows) \<and> n \<notin> set proto_names
         then Some (pie_acc t (map (\<lambda>r. coerce r y) (category_rows rows x n))) else None)"
    by blast+
  from e dist have "map_of (aggregated rows x y t) n = Some acc"
    by simp
  with m have "n \<in> set (map (\<lambda>r. key_of (cell r x)) rows)" "n \<notin> set proto_names"
    "acc = pie_acc t (map (\<lambda>r. coerce r y) (category_rows rows x n))"
    by (auto split: if_splits)
  moreover have "fst s = n" by (simp add: s pie_slice_def)
  ultimately show ?thesis
    using pie_slice_value [of t n] by (simp add: s)
qed

lemma pie_names:
  "mset (map fst (preparePieData rows x y t)) = mset (map fst (aggregated rows x y t))"
proof -
  have "map fst (map (pie_slice t) (aggregated rows x y t)) = map fst (aggregated rows x y t)"
    by (simp add: pie_slice_def comp_def)
  then show ?thesis
    unfolding preparePieData_def
    by (metis mset_js_sort_by mset_map)
qed

subsection \<open>The order of the records\<close>

text \<open>
  The comparator \<open>b.value - a.value\<close> on values that are not NaN: its sign is that of the
  comparison, also where the difference overflows, and the difference of two equal
  infinities, which is NaN, counts as 0.
\<close>

lemma js_sub_sign:
  assumes "a \<noteq> NaN" and "b \<noteq> NaN"
  shows "js_gt (js_sub a b) (Fin 0) \<longleftrightarrow> js_lt b a"
  using assms by (cases a; cases b) (simp_all add: js_gt_def js_sub_def js_lt_num_of_rat)

lemma js_ge_total:
  assumes "a \<noteq> NaN" and "b \<noteq> NaN" and "\<not> js_lt b a"
  shows "js_ge b a"
  using assms by (cases a; cases b) (auto simp: js_ge_def)

lemma pie_sorted:
  assumes "list_all (\<lambda>s. snd s \<noteq> NaN) (preparePieData rows x y t)"
  shows "non_increasing (preparePieData rows x y t)"
proof -
  define xs where "xs = map (pie_slice t) (aggregated rows x y t)"
  have out: "preparePieData rows x y t = js_sort_by (\<lambda>a b. js_sub (snd b) (snd a)) xs"
    by (simp add: preparePieData_def xs_def)
  from assms have num: "snd s \<noteq> NaN" if "s \<in> set xs" for s
    using that by (simp add: out set_js_sort_by list_all_iff)
  have gt: "\<forall>a\<in>set xs. \<forall>b\<in>set xs.
      js_gt (js_sub (snd a) (snd b)) (Fin 0) \<longrightarrow> js_ge (snd a) (snd b)"
    by (simp add: num js_sub_sign js_ge_def)
  have le: "\<forall>a\<in>set xs. \<forall>b\<in>set xs.
      \<not> js_gt (js_sub (snd a) (snd b)) (Fin 0) \<longrightarrow> js_ge (snd b) (snd a)"
    by (simp add: num js_sub_sign js_ge_total)
  have tr: "\<forall>a\<in>set xs. \<forall>b\<in>set xs. \<forall>c\<in>set xs.
      js_ge (snd a) (snd b) \<longrightarrow> js_ge (snd b) (snd c) \<longrightarrow> js_ge (snd a) (snd c)"
    using js_le_trans by (auto simp: js_le_def)
  have "sorted_wrt (\<lambda>a b. js_ge (snd a) (snd b)) (js_sort_by (\<lambda>a b. js_sub (snd b) (snd a)) xs)"
    by (rule sorted_js_sort_by_rel [where S = "set xs", OF gt le tr]) simp
  then show ?thesis by (simp add: non_increasing_def out)
qed

text \<open>No list of two or more records with a NaN value is sorted non-increasing.\<close>

lemma NaN_breaks_the_order:
  assumes sorted: "non_increasing ss" and s: "s \<in> set ss" and nan: "snd s = NaN"
  shows "length ss \<le> 1"
proof (rule ccontr)
  assume "\<not> length ss \<le> 1"
  then have len: "2 \<le> length ss" by simp
  from s obtain i where i: "i < length ss" "ss ! i = s"
    by (auto simp: in_set_conv_nth)
  define j where "j = (if i = 0 then 1 else 0 :: nat)"
  from len have j: "j < length ss" "j \<noteq> i"
    by (auto simp: j_def)
  have order: "js_ge (snd (ss ! k)) (snd (ss ! l))" if "k < l" "l < length ss" for k l
    using sorted_wrt_nth_less [OF sorted [unfolded non_increasing_def] that] .
  from j(2) consider "i < j" | "j < i" by linarith
  then show False
  proof cases
    case 1
    from order [OF 1 j(1)] show False
      by (cases "snd (ss ! j)") (simp_all add: i(2) nan js_ge_def)
  next
    case 2
    from order [OF 2 i(1)] show False
      by (cases "snd (ss ! j)") (simp_all add: i(2) nan js_ge_def)
  qed
qed

text \<open>
  No value is NaN when every y cell coerces to a finite number: a sum of finite numbers
  may overflow to an infinity, but only the sum of the two infinities is NaN. (For the
  average the rows must be fewer than the overflow threshold, so that the count, which
  the model does not round, is finite.)
\<close>

lemma finite_sum_not_NaN:
  "list_all num_isFinite ys \<Longrightarrow> a \<noteq> NaN \<Longrightarrow> foldl js_add a ys \<noteq> NaN"
proof (induction ys arbitrary: a)
  case Nil
  then show ?case by simp
next
  case (Cons v ys)
  then obtain b where v: "v = Fin b"
    by (cases v) (simp_all add: num_isFinite_def)
  from Cons.prems(2) have "js_add a (Fin b) \<noteq> NaN"
    by (cases a) (simp_all add: num_of_rat_not_NaN)
  with Cons show ?case by (simp add: v)
qed

lemma pie_values_not_NaN:
  assumes fin: "all_finite rows y"
    and len: "t = ''average'' \<Longrightarrow> rat_of_nat (length rows) < overflow_threshold"
  shows "list_all (\<lambda>s. snd s \<noteq> NaN) (preparePieData rows x y t)"
proof -
  have "snd s \<noteq> NaN" if s: "s \<in> set (preparePieData rows x y t)" for s
  proof -
    define rs where "rs = category_rows rows x (fst s)"
    define ys where "ys = map (\<lambda>r. coerce r y) rs"
    note p = pie_slices [OF s]
    then have v: "snd s = pie_value t ys" by (simp add: ys_def rs_def)
    from p have ne: "rs \<noteq> []"
      by (auto simp: rs_def category_rows_def filter_empty_conv)
    from fin have "list_all num_isFinite ys"
      by (auto simp: all_finite_def ys_def rs_def category_rows_def list_all_iff)
    then have sum: "foldl js_add (Fin 0) ys \<noteq> NaN"
      by (rule finite_sum_not_NaN) simp
    have cnt: "js_of_nat (length ys) \<noteq> NaN"
      using js_of_nat_cases [of "length ys"] by auto
    show ?thesis
    proof (cases "t = ''average''")
      case False
      with sum cnt show ?thesis by (simp add: v pie_value_def)
    next
      case True
      have "length ys \<le> length rows"
        by (simp add: ys_def rs_def category_rows_def)
      then have "rat_of_nat (length ys) \<le> rat_of_nat (length rows)"
        by simp
      with len [OF True] have small: "rat_of_nat (length ys) < overflow_threshold"
        by simp
      with js_of_nat_cases [of "length ys"] have n: "js_of_nat (length ys) = Fin (of_nat (length ys))"
        by (auto simp: js_of_nat_def num_of_rat_def split: if_splits)
      from ne have pos: "rat_of_nat (length ys) \<noteq> 0"
        by (simp add: ys_def)
      from sum pos have "js_div (foldl js_add (Fin 0) ys) (Fin (of_nat (length ys))) \<noteq> NaN"
        by (cases "foldl js_add (Fin 0) ys") (simp_all add: num_of_rat_not_NaN)
      with True show ?thesis by (simp add: v pie_value_def n)
    qed
  qed
  then show ?thesis by (simp add: list_all_iff)
qed

text \<open>
  C4, as the code has it. For a pie chart with data the transformer calls
  \<open>preparePieData\<close> whatever \<open>groupBy\<close> is. For every row set and every transform, every
  record of the result carries a distinct x category of the rows and, as its value, the
  sum, the average or the count of that category's coerced y values (the sum for any
  other transform), and every category has a record, those that name a property of
  \<open>Object.prototype\<close> aside. The records are sorted non-increasing by value exactly when
  no value is NaN or there is at most one record.
\<close>

theorem pie_sorted_by_value:
  "(non_increasing (preparePieData rows x y t) \<longleftrightarrow>
      length (preparePieData rows x y t) \<le> 1
      \<or> list_all (\<lambda>s. snd s \<noteq> NaN) (preparePieData rows x y t))
   \<and> distinct (map fst (preparePieData rows x y t))
   \<and> (\<forall>s\<in>set (preparePieData rows x y t).
         fst s \<in> set (map (\<lambda>r. key_of (cell r x)) rows)
       \<and> snd s = pie_value t (map (\<lambda>r. coerce r y) (category_rows rows x (fst s))))
   \<and> (\<forall>n\<in>set (map (\<lambda>r. key_of (cell r x)) rows).
         n \<in> set proto_names \<or> n \<in> set (map fst (preparePieData rows x y t)))
   \<and> (cfg_chartType c = ''pie'' \<and> cfg_data c \<noteq> [] \<longrightarrow>
        chart_data c =
          Some (PieData (preparePieData (cfg_data c) (cfg_x c) (cfg_y c) (cfg_dataTransform c))))"
proof -
  have order: "non_increasing (preparePieData rows x y t) \<longleftrightarrow>
      length (preparePieData rows x y t) \<le> 1
      \<or> list_all (\<lambda>s. snd s \<noteq> NaN) (preparePieData rows x y t)"
  proof
    assume sorted: "non_increasing (preparePieData rows x y t)"
    show "length (preparePieData rows x y t) \<le> 1
      \<or> list_all (\<lambda>s. snd s \<noteq> NaN) (preparePieData rows x y t)"
    proof (cases "list_all (\<lambda>s. snd s \<noteq> NaN) (preparePieData rows x y t)")
      case True
      then show ?thesis by simp
    next
      case False
      then obtain s where "s \<in> set (preparePieData rows x y t)" "snd s = NaN"
        by (auto simp: list_all_iff)
      with sorted have "length (preparePieData rows x y t) \<le> 1"
        by (rule NaN_breaks_the_order)
      then show ?thesis by simp
    qed
  next
    assume "length (preparePieData rows x y t) \<le> 1
      \<or> list_all (\<lambda>s. snd s \<noteq> NaN) (preparePieData rows x y t)"
    then show "non_increasing (preparePieData rows x y t)"
    proof
      assume "length (preparePieData rows x y t) \<le> 1"
      then show ?thesis
        by (cases "preparePieData rows x y t") (simp_all add: non_increasing_def)
    next
      assume "list_all (\<lambda>s. snd s \<noteq> NaN) (preparePieData rows x y t)"
      then show ?thesis by (rule pie_sorted)
    qed
  qed
  have names: "mset (map fst (preparePieData rows x y t)) = mset (map fst (aggregated rows x y t))"
    by (rule pie_names)
  have dist: "distinct (map fst (preparePieData rows x y t))"
    using aggregated_inv [of rows x y t] names by (metis mset_eq_imp_distinct_iff)
  have all: "n \<in> set proto_names \<or> n \<in> set (map fst (preparePieData rows x y t))"
    if n: "n \<in> set (map (\<lambda>r. key_of (cell r x)) rows)" for n
  proof (cases "n \<in> set proto_names")
    case True
    then show ?thesis by simp
  next
    case False
    with n aggregated_inv [of rows x y t] have "map_of (aggregated rows x y t) n \<noteq> None"
      by simp
    then have "n \<in> set (map fst (aggregated rows x y t))"
      by (metis map_of_eq_None_iff set_map)
    then have "n \<in> set (map fst (preparePieData rows x y t))"
      using names by (metis set_mset_mset)
    then show ?thesis by simp
  qed
  have pie: "cfg_chartType c = ''pie'' \<and> cfg_data c \<noteq> [] \<longrightarrow>
      chart_data c =
        Some (PieData (preparePieData (cfg_data c) (cfg_x c) (cfg_y c) (cfg_dataTransform c)))"
    by (simp add: chart_data_def)
  from order dist pie_slices [of _ rows x y t] all pie
  show ?thesis by blast
qed

theorem pie_sorted_by_value_witness:
  "preparePieData [[(''region'', ''east''), (''month'', ''Jan''), (''sales'', ''10'')],
      [(''region'', ''east''), (''month'', ''Feb''), (''sales'', ''20'')],
      [(''region'', ''west''), (''month'', ''Jan''), (''sales'', ''5'')]] ''region'' ''sales'' ''sum''
       = [(''east'', Fin 30), (''west'', Fin 5)]
   \<and> list_all (\<lambda>s. snd s \<noteq> NaN) [(''east'', Fin 30), (''west'', Fin 5)]
   \<and> non_increasing [(''east'', Fin 30), (''west'', Fin 5)]
   \<and> chart_data \<lparr> cfg_chartType = ''pie'', cfg_x = ''region'', cfg_y = ''sales'',
        cfg_groupBy = Some ''month'', cfg_dataTransform = ''sum'',
        cfg_data = [[(''region'', ''east''), (''month'', ''Jan''), (''sales'', ''10'')],
      [(''region'', ''east''), (''month'', ''Feb''), (''sales'', ''20'')],
      [(''region'', ''west''), (''month'', ''Jan''), (''sales'', ''5'')]] \<rparr>
       = Some (PieData [(''east'', Fin 30), (''west'', Fin 5)])"
proof -
  define rows where "rows = [[(''region'', ''east''), (''month'', ''Jan''), (''sales'', ''10'')],
      [(''region'', ''east''), (''month'', ''Feb''), (''sales'', ''20'')],
      [(''region'', ''west''), (''month'', ''Jan''), (''sales'', ''5'')]]"
  define c where "c = \<lparr> cfg_chartType = ''pie'', cfg_x = ''region'', cfg_y = ''sales'',
        cfg_groupBy = Some ''month'', cfg_dataTransform = ''sum'', cfg_data = rows \<rparr>"
  have out: "preparePieData rows ''region'' ''sales'' ''sum'' = [(''east'', Fin 30), (''west'', Fin 5)]"
    unfolding rows_def by code_simp
  have num: "list_all (\<lambda>s. snd s \<noteq> NaN) [(''east'', Fin 30), (''west'', Fin 5)]"
    by simp
  have pie: "cfg_chartType c = ''pie'' \<and> cfg_data c \<noteq> []"
    by (simp add: c_def rows_def)
  note claim = pie_sorted_by_value [of rows "''region''" "''sales''" "''sum''" c]
  from claim have "non_increasing (preparePieData rows ''region'' ''sales'' ''sum'') \<longleftrightarrow>
      length (preparePieData rows ''region'' ''sales'' ''sum'') \<le> 1
      \<or> list_all (\<lambda>s. snd s \<noteq> NaN) (preparePieData rows ''region'' ''sales'' ''sum'')"
    by (rule conjunct1)
  with num have sorted: "non_increasing [(''east'', Fin 30), (''west'', Fin 5)]"
    unfolding out by blast
  from claim pie have "chart_data c =
      Some (PieData (preparePieData (cfg_data c) (cfg_x c) (cfg_y c) (cfg_dataTransform c)))"
    by blast
  then have "chart_data c = Some (PieData [(''east'', Fin 30), (''west'', Fin 5)])"
    by (simp add: c_def out)
  with out num sorted show ?thesis
    unfolding c_def rows_def by blast
qed

text \<open>
  The claim C4 on y cells that parse as infinities: the sum of category \<open>a\<close> is
  \<open>Infinity + -Infinity\<close>, which is NaN, and a list that holds NaN beside another value
  is not sorted non-increasing in either order.
\<close>

theorem pie_not_sorted_with_infinities:
  "preparePieData
     [[(''c'', ''a''), (''v'', ''Infinity'')],
      [(''c'', ''a''), (''v'', ''-Infinity'')],
      [(''c'', ''b''), (''v'', ''1'')]] ''c'' ''v'' ''sum''
     = [(''a'', NaN), (''b'', Fin 1)]
   \<and> \<not> non_increasing [(''a'', NaN), (''b'', Fin 1)]
   \<and> \<not> non_increasing [(''b'', Fin 1), (''a'', NaN)]"
  by code_simp

text \<open>
  The same with cells that overflow: \<open>2e308\<close> is beyond the range of the numbers and
  parses as \<open>Infinity\<close>, \<open>-2e308\<close> as \<open>-Infinity\<close>.
\<close>

lemma pie_overflowing_cells:
  "preparePieData
     [[(''c'', ''a''), (''v'', ''2e308'')],
      [(''c'', ''a''), (''v'', ''-2e308'')],
      [(''c'', ''b''), (''v'', ''1'')]] ''c'' ''v'' ''sum''
     = [(''a'', NaN), (''b'', Fin 1)]"
  by code_simp

end
